theory Spec2Isabelle
  imports Main "HOL-Library.Word"
begin

section \<open>Requests, snapshots and their persisted form\<close>

text \<open>
  The queue of \<^verbatim>\<open>Queue.mjs\<close> stores snapshots of requests (\<^verbatim>\<open>StorableRequest\<close>) in
  IndexedDB and replays them later. \<^verbatim>\<open>StorableRequest.mjs\<close> is imported by the queue
  but is not among the sources, so the snapshot type and its conversions follow the
  specification (sections 3, 4.1 and 6).
\<close>

type_synonym bytes = "8 word list"

datatype credentials = Omit | SameOrigin | Include

text \<open>A live request value, as the network layer hands it to the queue.\<close>

record request =
  req_method :: string
  req_url :: string
  req_headers :: "(string \<times> string) list"
  req_body :: "bytes option"
  req_credentials :: credentials
  req_referrer :: "string option"
  req_bodyUsed :: bool

text \<open>The snapshot (\<^verbatim>\<open>StorableRequest\<close>); the queue itself only reads \<open>timestamp\<close>.\<close>

record storable =
  http_method :: string
  url :: string
  headers :: "(string \<times> string) list"
  body :: "bytes option"
  credentialsMode :: credentials
  referrer :: "string option"
  timestamp :: int

text \<open>The persisted record shape of specification section 6.\<close>

record stored_object =
  obj_method :: string
  obj_url :: string
  obj_headers :: "(string \<times> string) list"
  obj_body :: "bytes option"
  obj_mode :: credentials
  obj_referrer :: "string option"
  obj_timestamp :: int

datatype error =
  DuplicateQueueName string
| ConversionError
| StorageFailure
| CallbackError

text \<open>Modelled from the spec: \<^verbatim>\<open>StorableRequest\<close> is absent from the sources. Methods
  that forbid a body are GET and HEAD (section 3).\<close>

definition permitsBody :: "string \<Rightarrow> bool" where
  "permitsBody m = (m \<noteq> ''GET'' \<and> m \<noteq> ''HEAD'')"

text \<open>Modelled from the spec: \<^verbatim>\<open>StorableRequest.fromRequest\<close> (section 4.1) captures
  method, URL, all header pairs in order, credentials mode and referrer; it reads the
  body only when the method permits one, and fails when that body was already consumed.
  The timestamp is the capture time.\<close>

definition fromRequest :: "int \<Rightarrow> request \<Rightarrow> error + storable" where
  "fromRequest now r =
     (if permitsBody (req_method r) \<and> req_bodyUsed r then Inl ConversionError
      else Inr \<lparr>http_method = req_method r, url = req_url r, headers = req_headers r,
                body = (if permitsBody (req_method r) then req_body r else None),
                credentialsMode = req_credentials r, referrer = req_referrer r,
                timestamp = now\<rparr>)"

text \<open>Modelled from the spec: \<^verbatim>\<open>StorableRequest.toRequest\<close> (section 4.1) rebuilds a
  request; GET and HEAD never carry a body, even when the snapshot holds one.\<close>

definition toRequest :: "storable \<Rightarrow> request" where
  "toRequest s =
     \<lparr>req_method = http_method s, req_url = url s, req_headers = headers s,
      req_body = (if permitsBody (http_method s) then body s else None),
      req_credentials = credentialsMode s, req_referrer = referrer s,
      req_bodyUsed = False\<rparr>"

text \<open>Modelled from the spec: \<^verbatim>\<open>StorableRequest.toObject\<close> writes the persisted
  record of section 6, field by field.\<close>

definition toObject :: "storable \<Rightarrow> stored_object" where
  "toObject s =
     \<lparr>obj_method = http_method s, obj_url = url s, obj_headers = headers s,
      obj_body = body s, obj_mode = credentialsMode s, obj_referrer = referrer s,
      obj_timestamp = timestamp s\<rparr>"

text \<open>Modelled from the spec: the \<^verbatim>\<open>StorableRequest\<close> constructor, called by the queue
  as \<^verbatim>\<open>new StorableRequest(entry.storableRequest)\<close>, reads a persisted record back.\<close>

definition fromObject :: "stored_object \<Rightarrow> storable" where
  "fromObject obj =
     \<lparr>http_method = obj_method obj, url = obj_url obj, headers = obj_headers obj,
      body = obj_body obj, credentialsMode = obj_mode obj, referrer = obj_referrer obj,
      timestamp = obj_timestamp obj\<rparr>"


section \<open>The queue, its environment and the world it runs in\<close>

datatype hook =
  RequestWillQueue | RequestWillReplay | RequestDidReplay | ReplayDidFail
| AllRequestsDidReplay

text \<open>
  How a call of a user callback comes back to \<^verbatim>\<open>_runCallback\<close>: it returns, it throws,
  or (an \<^verbatim>\<open>async\<close> function) it returns a promise whose continuation will change the
  snapshot further when the event loop resumes it.
\<close>

datatype completion = Returned | Thrown | Suspended "storable \<Rightarrow> storable"

text \<open>
  A snapshot callback receives the snapshot object and may mutate it before it comes
  back: the result is the snapshot as the callback left it, and the completion.
\<close>

type_synonym callback = "storable \<Rightarrow> storable \<times> completion"

text \<open>
  A snapshot object during a pass: its present value, and the continuations that
  suspended callbacks have left on it and that have not run yet, each with the hook it
  came from. A continuation is taken to run to its end once it is resumed.
\<close>

type_synonym cell = "storable \<times> (hook \<times> (storable \<Rightarrow> storable)) list"

text \<open>
  The waits of a pass during which the event loop may resume such a continuation: the
  \<^verbatim>\<open>await\<close> of the fetch, the \<^verbatim>\<open>await\<close> of the removal, and whatever lies between the
  end of \<^verbatim>\<open>_replayRequest\<close> for an entry and the call of \<open>allRequestsDidReplay\<close>.
\<close>

datatype stage = DuringFetch | DuringRemoval | BeforeEnd

record callbacks =
  requestWillQueue :: "callback option"
  requestWillReplay :: "callback option"
  requestDidReplay :: "callback option"
  replayDidFail :: "callback option"
  allRequestsDidReplay :: "(storable list \<Rightarrow> completion) option"

definition no_callbacks :: callbacks where
  "no_callbacks =
     \<lparr>requestWillQueue = None, requestWillReplay = None, requestDidReplay = None,
      replayDidFail = None, allRequestsDidReplay = None\<rparr>"

record queue =
  name :: string
  callbacks :: callbacks
  maxRetentionTime :: int

type_synonym key = nat

record entry =
  queueName :: string
  storableRequest :: stored_object

text \<open>
  What the queue does that can be observed from outside, in the order it does it:
  entering \<^verbatim>\<open>replayRequests\<close>, calling \<^verbatim>\<open>_runCallback\<close> (the user's function runs when
  the queue has one for that hook), a network attempt, the three store operations and a
  call of \<^verbatim>\<open>_registerSync\<close>.
\<close>

datatype event =
  ReplayRequests string
| Callback hook "storable list"
| Fetch request
| Add entry
| GetAll
| RemoveRequest key
| RegisterSync string

text \<open>
  The process: the module-level set \<^verbatim>\<open>names\<close>, the sync listeners added to \<^verbatim>\<open>self\<close>
  (each closes over its queue), the object store with its auto-increment counter, the
  removals that were started without \<^verbatim>\<open>await\<close> and have not reached the store yet, the
  tags registered with the sync manager, and the trace of events.
\<close>

record world =
  names :: "string list"
  listeners :: "queue list"
  store :: "(key \<times> entry) list"
  nextKey :: key
  pendingRemovals :: "key list"
  syncTags :: "string list"
  trace :: "event list"

definition initial_world :: world where
  "initial_world =
     \<lparr>names = [], listeners = [], store = [], nextKey = 1, pendingRemovals = [],
      syncTags = [], trace = []\<rparr>"

text \<open>
  What the code reads from outside and cannot decide itself: the clock, the outcome of
  each network attempt, whether a store operation rejects, whether the event loop
  resumes a suspended callback before \<^verbatim>\<open>addRequest\<close> goes on, during which wait of a
  pass it resumes the continuation that a hook left on the snapshot of an entry
  (\<open>resumed\<close>), and the state of the service worker. Within a pass each key is examined,
  fetched and deleted at most once, so oracles indexed by the key cover every behaviour
  of the collaborators.
\<close>

record env =
  capture_time :: int
  date_now :: "key \<Rightarrow> int"
  fetch_ok :: "key \<Rightarrow> request \<Rightarrow> bool"
  add_fails :: bool
  getAll_fails :: bool
  delete_fails :: "key \<Rightarrow> bool"
  resumes_first :: bool
  resumed :: "key \<Rightarrow> hook \<Rightarrow> stage \<Rightarrow> bool"
  sw_active :: bool
  sync_supported :: bool
  sync_register_fails :: bool

definition TAG_PREFIX :: string where
  "TAG_PREFIX = ''workbox-background-sync''"

definition MAX_RETENTION_TIME :: int where
  "MAX_RETENTION_TIME = 1000 * 60 * 60 * 24 * 7"

definition log :: "event \<Rightarrow> world \<Rightarrow> world" where
  "log e w = w\<lparr>trace := trace w @ [e]\<rparr>"

text \<open>Modelled from the spec: the store collaborator (\<^verbatim>\<open>indexedDBHelper\<close> of
  workbox-core, section 6). \<open>add\<close> assigns the next key, larger than all earlier ones;
  \<open>getAll\<close> is the sequence of (key, entry) pairs in key order, here the \<open>store\<close> field
  itself; \<open>delete\<close> removes the entry at a key.\<close>

definition db_add :: "entry \<Rightarrow> world \<Rightarrow> world" where
  "db_add e w = w\<lparr>store := store w @ [(nextKey w, e)], nextKey := Suc (nextKey w)\<rparr>"

definition db_delete :: "key \<Rightarrow> world \<Rightarrow> world" where
  "db_delete k w = w\<lparr>store := filter (\<lambda>p. fst p \<noteq> k) (store w)\<rparr>"


section \<open>The methods of Queue\<close>

text \<open>
  The callback a queue holds for a hook that takes one snapshot. \<open>allRequestsDidReplay\<close>
  takes the list of snapshots and is run by \<open>runCallback_all\<close> below.
\<close>

definition hook_of :: "callbacks \<Rightarrow> hook \<Rightarrow> callback option" where
  "hook_of cbs h =
     (case h of
        RequestWillQueue \<Rightarrow> requestWillQueue cbs
      | RequestWillReplay \<Rightarrow> requestWillReplay cbs
      | RequestDidReplay \<Rightarrow> requestDidReplay cbs
      | ReplayDidFail \<Rightarrow> replayDidFail cbs
      | AllRequestsDidReplay \<Rightarrow> None)"

text \<open>
  Calling what \<^verbatim>\<open>this._callbacks[name]\<close> holds: nothing happens when it is not a
  function.
\<close>

definition apply_callback :: "callback option \<Rightarrow> storable \<Rightarrow> storable \<times> completion" where
  "apply_callback cb sr = (case cb of None \<Rightarrow> (sr, Returned) | Some f \<Rightarrow> f sr)"

text \<open>
  \<^verbatim>\<open>_runCallback(name, ...args)\<close> with a snapshot as argument. What the callback
  returns is dropped, so a promise is never awaited. The result is the completion, the
  snapshot as the call left it, and the world.
\<close>

definition runCallback ::
  "queue \<Rightarrow> hook \<Rightarrow> storable \<Rightarrow> world \<Rightarrow> completion \<times> storable \<times> world" where
  "runCallback q h sr w =
     (snd (apply_callback (hook_of (callbacks q) h) sr),
      fst (apply_callback (hook_of (callbacks q) h) sr),
      log (Callback h [sr]) w)"

text \<open>\<^verbatim>\<open>_runCallback('allRequestsDidReplay', successfullyReplayedRequests)\<close>.\<close>

definition runCallback_all ::
  "queue \<Rightarrow> storable list \<Rightarrow> world \<Rightarrow> completion \<times> world" where
  "runCallback_all q srs w =
     (case allRequestsDidReplay (callbacks q) of
        None \<Rightarrow> (Returned, log (Callback AllRequestsDidReplay srs) w)
      | Some f \<Rightarrow> (f srs, log (Callback AllRequestsDidReplay srs) w))"

definition sync_tag :: "queue \<Rightarrow> string" where
  "sync_tag q = TAG_PREFIX @ '':'' @ name q"

text \<open>
  \<^verbatim>\<open>_waitUntilActive\<close> resolves at once when the service worker is active; otherwise
  it waits for the activate event, and the registration behind it stays pending.
\<close>

definition waitUntilActive :: "env \<Rightarrow> bool" where
  "waitUntilActive e = sw_active e"

text \<open>
  \<^verbatim>\<open>_registerSync\<close>: every failure inside is caught and dropped, so the call itself
  never fails; the tag is registered when the worker is active, the sync manager exists
  and its \<open>register\<close> does not reject.
\<close>

definition registerSync :: "queue \<Rightarrow> env \<Rightarrow> world \<Rightarrow> world" where
  "registerSync q e w =
     (let w1 = log (RegisterSync (sync_tag q)) w in
      if waitUntilActive e \<and> sync_supported e \<and> \<not> sync_register_fails e
      then w1\<lparr>syncTags := List.insert (sync_tag q) (syncTags w1)\<rparr>
      else w1)"

text \<open>
  \<^verbatim>\<open>_removeRequest(key)\<close> in two halves. The call starts the removal; later the
  store is obtained and the key deleted, and a rejection of either step is the rejection
  of the promise. Where the caller awaits the promise, the second half follows the first
  at once (\<open>removeRequest\<close>). Where it does not, the key waits in \<open>pendingRemovals\<close>
  until the event loop gets to it (\<open>settleRemovals\<close>), and the promise's outcome is
  dropped. A pass reads the store once, before it starts any removal, so the moment at
  which a pending removal reaches the store makes no difference to the pass itself.
\<close>

definition startRemoval :: "key \<Rightarrow> world \<Rightarrow> world" where
  "startRemoval k w = log (RemoveRequest k) w"

definition completeRemoval :: "env \<Rightarrow> key \<Rightarrow> world \<Rightarrow> (error + unit) \<times> world" where
  "completeRemoval e k w =
     (if delete_fails e k then (Inl StorageFailure, w) else (Inr (), db_delete k w))"

definition removeRequest :: "env \<Rightarrow> key \<Rightarrow> world \<Rightarrow> (error + unit) \<times> world" where
  "removeRequest e k w = completeRemoval e k (startRemoval k w)"

definition settleRemovals :: "env \<Rightarrow> world \<Rightarrow> world" where
  "settleRemovals e w =
     fold (\<lambda>k w'. snd (completeRemoval e k w')) (pendingRemovals w)
       (w\<lparr>pendingRemovals := []\<rparr>)"

text \<open>
  \<^verbatim>\<open>addRequest\<close>. The callback runs without \<^verbatim>\<open>await\<close> and outside any \<^verbatim>\<open>try\<close>: a throw
  rejects \<^verbatim>\<open>addRequest\<close>, a returned promise is dropped. \<^verbatim>\<open>toObject()\<close> is evaluated
  after the \<^verbatim>\<open>await\<close> of the store handle, so the continuation of a suspended callback
  is in the persisted record exactly when the event loop ran it during that wait.
  \<^verbatim>\<open>_registerSync\<close> is started and not awaited.
\<close>

definition addRequest ::
  "queue \<Rightarrow> env \<Rightarrow> request \<Rightarrow> world \<Rightarrow> (error + unit) \<times> world" where
  "addRequest q e r w =
     (case fromRequest (capture_time e) r of
        Inl err \<Rightarrow> (Inl err, w)
      | Inr sr \<Rightarrow>
          (case runCallback q RequestWillQueue sr w of
             (Thrown, sr1, w1) \<Rightarrow> (Inl CallbackError, w1)
           | (Returned, sr1, w1) \<Rightarrow>
               (let ent = \<lparr>queueName = name q, storableRequest = toObject sr1\<rparr> in
                if add_fails e then (Inl StorageFailure, log (Add ent) w1)
                else (Inr (), registerSync q e (db_add ent (log (Add ent) w1))))
           | (Suspended k, sr1, w1) \<Rightarrow>
               (let sr2 = (if resumes_first e then k sr1 else sr1);
                    ent = \<lparr>queueName = name q, storableRequest = toObject sr2\<rparr> in
                if add_fails e then (Inl StorageFailure, log (Add ent) w1)
                else (Inr (), registerSync q e (db_add ent (log (Add ent) w1))))))"

text \<open>
  The body of the \<^verbatim>\<open>for\<close> loop of \<^verbatim>\<open>_getStorableRequestsInQueue\<close> over the array that
  \<^verbatim>\<open>getAll\<close> returned. For an entry of this queue older than \<open>maxRetentionTime\<close> the
  removal is started and the entry skipped; the removal is not awaited.
\<close>

fun scanEntries ::
  "queue \<Rightarrow> env \<Rightarrow> (key \<times> entry) list \<Rightarrow> world \<Rightarrow> (key \<times> storable) list \<times> world" where
  "scanEntries q e [] w = ([], w)"
| "scanEntries q e ((k, ent) # rest) w =
     (if queueName ent = name q then
        (let sr = fromObject (storableRequest ent) in
         if date_now e k - timestamp sr > maxRetentionTime q
         then scanEntries q e rest
                ((startRemoval k w)\<lparr>pendingRemovals := pendingRemovals w @ [k]\<rparr>)
         else (case scanEntries q e rest w of (live, w') \<Rightarrow> ((k, sr) # live, w')))
      else scanEntries q e rest w)"

definition getStorableRequestsInQueue ::
  "queue \<Rightarrow> env \<Rightarrow> world \<Rightarrow> (error + (key \<times> storable) list) \<times> world" where
  "getStorableRequestsInQueue q e w =
     (if getAll_fails e then (Inl StorageFailure, log GetAll w)
      else (case scanEntries q e (store w) (log GetAll w) of
              (live, w') \<Rightarrow> (Inr live, w')))"

text \<open>
  The continuation a call leaves behind when it comes back suspended, and what a wait
  does to a snapshot object: the continuations that the event loop resumes during it
  run, in the order in which they were left, and the others stay.
\<close>

definition promised :: "hook \<Rightarrow> completion \<Rightarrow> (hook \<times> (storable \<Rightarrow> storable)) list" where
  "promised h c = (case c of Suspended k \<Rightarrow> [(h, k)] | _ \<Rightarrow> [])"

definition resume :: "env \<Rightarrow> key \<Rightarrow> stage \<Rightarrow> cell \<Rightarrow> cell" where
  "resume e k st c =
     (fold (\<lambda>p s. snd p s) (filter (\<lambda>p. resumed e k (fst p) st) (snd c)) (fst c),
      filter (\<lambda>p. \<not> resumed e k (fst p) st) (snd c))"

text \<open>
  The \<^verbatim>\<open>catch\<close> block of \<^verbatim>\<open>_replayRequest\<close>: \<open>replayDidFail\<close> is called with the
  snapshot object as it is then. It runs outside any \<^verbatim>\<open>try\<close>, so its own throw rejects
  \<^verbatim>\<open>_replayRequest\<close>.
\<close>

definition replayFailed ::
  "queue \<Rightarrow> cell \<Rightarrow> world \<Rightarrow> (error + bool) \<times> cell \<times> world" where
  "replayFailed q c w =
     (case runCallback q ReplayDidFail (fst c) w of
        (Thrown, sr', w') \<Rightarrow> (Inl CallbackError, (sr', snd c), w')
      | (cf, sr', w') \<Rightarrow> (Inr False, (sr', snd c @ promised ReplayDidFail cf), w'))"

text \<open>
  \<^verbatim>\<open>_replayRequest(key, storableRequest)\<close>. Everything in the \<^verbatim>\<open>try\<close> block that throws
  or rejects (a callback, the fetch, the awaited removal) leads to the \<^verbatim>\<open>catch\<close> block.
  The request is built from the snapshot as \<open>requestWillReplay\<close> left it when it came
  back. A promise that a callback returns is dropped; its continuation changes the same
  snapshot object when the event loop resumes it, which can happen while the fetch or
  the removal is awaited, so the later callbacks see the object as it is by then. The
  result carries the snapshot object with the continuations still to run.
\<close>

definition replayRequest ::
  "queue \<Rightarrow> env \<Rightarrow> key \<Rightarrow> storable \<Rightarrow> world \<Rightarrow> (error + bool) \<times> cell \<times> world" where
  "replayRequest q e k sr w =
     (case runCallback q RequestWillReplay sr w of
        (Thrown, sr1, w1) \<Rightarrow> replayFailed q (sr1, []) w1
      | (c1, sr1, w1) \<Rightarrow>
          (let w2 = log (Fetch (toRequest sr1)) w1;
               fetched = resume e k DuringFetch (sr1, promised RequestWillReplay c1) in
           if \<not> fetch_ok e k (toRequest sr1) then replayFailed q fetched w2
           else
             (case runCallback q RequestDidReplay (fst fetched) w2 of
                (Thrown, sr2, w3) \<Rightarrow> replayFailed q (sr2, snd fetched) w3
              | (c2, sr2, w3) \<Rightarrow>
                  (let removed = resume e k DuringRemoval
                                   (sr2, snd fetched @ promised RequestDidReplay c2) in
                   case removeRequest e k w3 of
                     (Inl err, w4) \<Rightarrow> replayFailed q removed w4
                   | (Inr u, w4) \<Rightarrow> (Inr True, removed, w4)))))"

text \<open>
  The \<^verbatim>\<open>for\<close> loop of \<^verbatim>\<open>replayRequests\<close>, with its two local variables
  \<^verbatim>\<open>successfullyReplayedRequests\<close> (the snapshot objects, here with their keys) and
  \<^verbatim>\<open>allReplaysSuccessful\<close>. Each \<^verbatim>\<open>_replayRequest\<close> is awaited before the next
  iteration; a rejection leaves the loop.
\<close>

fun replayLoop ::
  "queue \<Rightarrow> env \<Rightarrow> (key \<times> storable) list \<Rightarrow> (key \<times> cell) list \<Rightarrow> bool \<Rightarrow> world \<Rightarrow>
   (error + (key \<times> cell) list \<times> bool) \<times> world" where
  "replayLoop q e [] replayed ok w = (Inr (replayed, ok), w)"
| "replayLoop q e ((k, sr) # rest) replayed ok w =
     (case replayRequest q e k sr w of
        (Inl err, c, w') \<Rightarrow> (Inl err, w')
      | (Inr True, c, w') \<Rightarrow> replayLoop q e rest (replayed @ [(k, c)]) ok w'
      | (Inr False, c, w') \<Rightarrow> replayLoop q e rest replayed False w')"

text \<open>
  The snapshots \<open>allRequestsDidReplay\<close> receives: the replayed objects as they are when
  it is called.
\<close>

definition finalSnapshots :: "env \<Rightarrow> (key \<times> cell) list \<Rightarrow> storable list" where
  "finalSnapshots e replayed = map (\<lambda>p. fst (resume e (fst p) BeforeEnd (snd p))) replayed"

definition replayRequests :: "queue \<Rightarrow> env \<Rightarrow> world \<Rightarrow> (error + unit) \<times> world" where
  "replayRequests q e w =
     (case getStorableRequestsInQueue q e (log (ReplayRequests (name q)) w) of
        (Inl err, w1) \<Rightarrow> (Inl err, w1)
      | (Inr live, w1) \<Rightarrow>
          (if live = [] then (Inr (), w1)
           else
             (case replayLoop q e live [] True w1 of
                (Inl err, w2) \<Rightarrow> (Inl err, w2)
              | (Inr (replayed, True), w2) \<Rightarrow>
                  (case runCallback_all q (finalSnapshots e replayed) w2 of
                     (Thrown, w3) \<Rightarrow> (Inl CallbackError, w3)
                   | (c, w3) \<Rightarrow> (Inr (), w3))
              | (Inr (replayed, False), w2) \<Rightarrow> (Inr (), registerSync q e w2))))"

text \<open>
  \<^verbatim>\<open>_addSyncListener\<close>: the listener is added to \<^verbatim>\<open>self\<close>; where the browser has no
  sync manager a replay is started at once (not awaited, its outcome is dropped).
\<close>

definition addSyncListener :: "queue \<Rightarrow> env \<Rightarrow> world \<Rightarrow> world" where
  "addSyncListener q e w =
     (let w1 = w\<lparr>listeners := listeners w @ [q]\<rparr> in
      if \<not> sync_supported e then snd (replayRequests q e w1) else w1)"

text \<open>The constructor, with the defaults of its destructured second parameter.\<close>

definition Queue_constructor ::
  "string \<Rightarrow> int option \<Rightarrow> callbacks option \<Rightarrow> env \<Rightarrow> world \<Rightarrow> (error + queue) \<times> world" where
  "Queue_constructor n mrt cbs e w =
     (if n \<in> set (names w) then (Inl (DuplicateQueueName n), w)
      else
        (let w1 = w\<lparr>names := names w @ [n]\<rparr>;
             q = \<lparr>name = n,
                  callbacks = (case cbs of None \<Rightarrow> no_callbacks | Some c \<Rightarrow> c),
                  maxRetentionTime = (case mrt of None \<Rightarrow> MAX_RETENTION_TIME | Some t \<Rightarrow> t)\<rparr>
         in (Inr q, addSyncListener q e w1)))"

text \<open>
  A sync event delivered to the service worker: every listener added by
  \<^verbatim>\<open>_addSyncListener\<close> runs, and each calls \<^verbatim>\<open>replayRequests\<close> of its queue without
  looking at \<^verbatim>\<open>event.tag\<close>. A rejected pass does not keep the other listeners from
  running. The passes run one after the other here; in the browser they interleave at
  their \<^verbatim>\<open>await\<close>s, each keeping its own order.
\<close>

definition dispatchSync :: "string \<Rightarrow> env \<Rightarrow> world \<Rightarrow> world" where
  "dispatchSync tag e w = fold (\<lambda>q w'. snd (replayRequests q e w')) (listeners w) w"

text \<open>
  What can happen to the process, one step at a time, each under its environment; the
  last is the event loop carrying out the removals that were started and not awaited.
\<close>

datatype action =
  Construct string "int option" "callbacks option"
| Enqueue queue request
| Replay queue
| Sync string
| Settle

fun step :: "env \<times> action \<Rightarrow> world \<Rightarrow> world" where
  "step (e, Construct n mrt cbs) w = snd (Queue_constructor n mrt cbs e w)"
| "step (e, Enqueue q r) w = snd (addRequest q e r w)"
| "step (e, Replay q) w = snd (replayRequests q e w)"
| "step (e, Sync tag) w = dispatchSync tag e w"
| "step (e, Settle) w = settleRemovals e w"

definition run :: "(env \<times> action) list \<Rightarrow> world \<Rightarrow> world" where
  "run acts w = fold step acts w"


section \<open>Notions used in the statements\<close>

text \<open>The events a step added to the trace.\<close>

definition pass_events :: "world \<Rightarrow> world \<Rightarrow> event list" where
  "pass_events w w' = drop (length (trace w)) (trace w')"

text \<open>
  What \<^verbatim>\<open>_replayRequest\<close> does for one entry does not depend on the world it starts in:
  its result, the snapshot object it leaves and the events it adds are read off a run in
  the initial world.
\<close>

definition replayResult :: "queue \<Rightarrow> env \<Rightarrow> key \<Rightarrow> storable \<Rightarrow> error + bool" where
  "replayResult q e k sr = fst (replayRequest q e k sr initial_world)"

definition replayCell :: "queue \<Rightarrow> env \<Rightarrow> key \<Rightarrow> storable \<Rightarrow> cell" where
  "replayCell q e k sr = fst (snd (replayRequest q e k sr initial_world))"

definition replayEvents :: "queue \<Rightarrow> env \<Rightarrow> key \<Rightarrow> storable \<Rightarrow> event list" where
  "replayEvents q e k sr = trace (snd (snd (replayRequest q e k sr initial_world)))"

definition entryEvents :: "queue \<Rightarrow> env \<Rightarrow> key \<times> storable \<Rightarrow> event list" where
  "entryEvents q e p = replayEvents q e (fst p) (snd p)"

definition entryResult :: "queue \<Rightarrow> env \<Rightarrow> key \<times> storable \<Rightarrow> error + bool" where
  "entryResult q e p = replayResult q e (fst p) (snd p)"

definition entryCell :: "queue \<Rightarrow> env \<Rightarrow> key \<times> storable \<Rightarrow> cell" where
  "entryCell q e p = replayCell q e (fst p) (snd p)"

text \<open>
  The snapshot object of an entry along \<^verbatim>\<open>_replayRequest\<close>: what \<open>requestWillReplay\<close>
  gives back, the object when the fetch has been awaited, what \<open>requestDidReplay\<close>
  gives back on that, and the object when the removal has been awaited.
\<close>

definition willReplay :: "queue \<Rightarrow> storable \<Rightarrow> storable \<times> completion" where
  "willReplay q sr = apply_callback (requestWillReplay (callbacks q)) sr"

definition atFetched :: "queue \<Rightarrow> env \<Rightarrow> key \<Rightarrow> storable \<Rightarrow> cell" where
  "atFetched q e k sr =
     resume e k DuringFetch
       (fst (willReplay q sr), promised RequestWillReplay (snd (willReplay q sr)))"

definition didReplay :: "queue \<Rightarrow> env \<Rightarrow> key \<Rightarrow> storable \<Rightarrow> storable \<times> completion" where
  "didReplay q e k sr = apply_callback (requestDidReplay (callbacks q)) (fst (atFetched q e k sr))"

definition atRemoved :: "queue \<Rightarrow> env \<Rightarrow> key \<Rightarrow> storable \<Rightarrow> cell" where
  "atRemoved q e k sr =
     resume e k DuringRemoval
       (fst (didReplay q e k sr),
        snd (atFetched q e k sr) @ promised RequestDidReplay (snd (didReplay q e k sr)))"

text \<open>What the \<^verbatim>\<open>catch\<close> block makes of a snapshot object: the result and the object left.\<close>

definition failResult :: "queue \<Rightarrow> cell \<Rightarrow> error + bool" where
  "failResult q c =
     (if snd (apply_callback (replayDidFail (callbacks q)) (fst c)) = Thrown
      then Inl CallbackError else Inr False)"

definition failCell :: "queue \<Rightarrow> cell \<Rightarrow> cell" where
  "failCell q c =
     (fst (apply_callback (replayDidFail (callbacks q)) (fst c)),
      snd c @ promised ReplayDidFail (snd (apply_callback (replayDidFail (callbacks q)) (fst c))))"

text \<open>
  The entries the loop of \<^verbatim>\<open>replayRequests\<close> gets to: all of them, unless a
  \<^verbatim>\<open>_replayRequest\<close> rejects, which ends the loop after that entry.
\<close>

fun processed :: "queue \<Rightarrow> env \<Rightarrow> (key \<times> storable) list \<Rightarrow> (key \<times> storable) list" where
  "processed q e [] = []"
| "processed q e (p # rest) =
     p # (if isl (entryResult q e p) then [] else processed q e rest)"

definition loopResult ::
  "queue \<Rightarrow> env \<Rightarrow> (key \<times> storable) list \<Rightarrow> error + (key \<times> cell) list \<times> bool" where
  "loopResult q e live = fst (replayLoop q e live [] True initial_world)"

text \<open>An entry of this queue that is older than the retention time when the scan reads it.\<close>

definition expired :: "queue \<Rightarrow> env \<Rightarrow> key \<times> entry \<Rightarrow> bool" where
  "expired q e p =
     (queueName (snd p) = name q \<and>
      date_now e (fst p) - timestamp (fromObject (storableRequest (snd p))) > maxRetentionTime q)"

definition expiredKeys :: "queue \<Rightarrow> env \<Rightarrow> (key \<times> entry) list \<Rightarrow> key list" where
  "expiredKeys q e st = map fst (filter (expired q e) st)"

definition liveEntries :: "queue \<Rightarrow> env \<Rightarrow> (key \<times> entry) list \<Rightarrow> (key \<times> storable) list" where
  "liveEntries q e st =
     map (\<lambda>p. (fst p, fromObject (storableRequest (snd p))))
       (filter (\<lambda>p. queueName (snd p) = name q \<and> \<not> expired q e p) st)"

text \<open>The keys a pass deletes itself: those of the entries that were replayed.\<close>

definition replayedKeys :: "queue \<Rightarrow> env \<Rightarrow> (key \<times> storable) list \<Rightarrow> key list" where
  "replayedKeys q e live =
     map fst (filter (\<lambda>p. entryResult q e p = Inr True) (processed q e live))"

text \<open>What \<^verbatim>\<open>replayRequests\<close> does after its loop.\<close>

definition passTail :: "queue \<Rightarrow> env \<Rightarrow> (key \<times> storable) list \<Rightarrow> event list" where
  "passTail q e live =
     (if live = [] then []
      else (case loopResult q e live of
              Inl err \<Rightarrow> []
            | Inr (replayed, ok) \<Rightarrow>
                if ok then [Callback AllRequestsDidReplay (finalSnapshots e replayed)]
                else [RegisterSync (sync_tag q)]))"

text \<open>
  The snapshot \<^verbatim>\<open>addRequest\<close> persists, given what the \<open>requestWillQueue\<close> callback gave
  back: the snapshot as the call left it, changed further by the continuation of a
  suspended callback only when the event loop resumed it first.
\<close>

definition persisted :: "env \<Rightarrow> storable \<times> completion \<Rightarrow> storable" where
  "persisted e res =
     (case snd res of
        Suspended k \<Rightarrow> if resumes_first e then k (fst res) else fst res
      | _ \<Rightarrow> fst res)"

text \<open>The arguments of the calls of one hook, the network attempts, the passes entered and
  the tags handed to \<^verbatim>\<open>_registerSync\<close>, in trace order.\<close>

fun hook_calls :: "hook \<Rightarrow> event list \<Rightarrow> storable list list" where
  "hook_calls h [] = []"
| "hook_calls h (Callback h' args # evs) =
     (if h' = h then args # hook_calls h evs else hook_calls h evs)"
| "hook_calls h (ev # evs) = hook_calls h evs"

fun fetches :: "event list \<Rightarrow> request list" where
  "fetches [] = []"
| "fetches (Fetch r # evs) = r # fetches evs"
| "fetches (ev # evs) = fetches evs"

fun passes :: "event list \<Rightarrow> string list" where
  "passes [] = []"
| "passes (ReplayRequests n # evs) = n # passes evs"
| "passes (ev # evs) = passes evs"

fun registrations :: "event list \<Rightarrow> string list" where
  "registrations [] = []"
| "registrations (RegisterSync t # evs) = t # registrations evs"
| "registrations (ev # evs) = registrations evs"

text \<open>
  The store as its contract describes it: keys in ascending order, all below the next
  key to be assigned.
\<close>

definition store_ok :: "world \<Rightarrow> bool" where
  "store_ok w =
     (sorted_wrt (<) (map fst (store w)) \<and> (\<forall>k \<in> set (map fst (store w)). k < nextKey w))"

text \<open>The names of the queues an action list constructs.\<close>

fun constructed :: "(env \<times> action) list \<Rightarrow> string set" where
  "constructed [] = {}"
| "constructed ((e, Construct n mrt cbs) # acts) = insert n (constructed acts)"
| "constructed (a # acts) = constructed acts"

text \<open>
  The ways a pass changes the world: events are appended, keys are deleted, removals are
  left pending.
\<close>

definition effect :: "event list \<Rightarrow> key list \<Rightarrow> world \<Rightarrow> world" where
  "effect evs ks w =
     w\<lparr>trace := trace w @ evs, store := filter (\<lambda>p. fst p \<notin> set ks) (store w)\<rparr>"

definition postpone :: "key list \<Rightarrow> world \<Rightarrow> world" where
  "postpone ks w = w\<lparr>pendingRemovals := pendingRemovals w @ ks\<rparr>"


section \<open>Example values\<close>

text \<open>Concrete requests, environments and worlds, used to instantiate the theorems.\<close>

definition post_request :: request where
  "post_request =
     \<lparr>req_method = ''POST'', req_url = ''/buy'', req_headers = [(''X-Id'', ''7'')],
      req_body = Some [1, 2], req_credentials = Include, req_referrer = None,
      req_bodyUsed = False\<rparr>"

definition post_snapshot :: storable where
  "post_snapshot =
     \<lparr>http_method = ''POST'', url = ''/buy'', headers = [(''X-Id'', ''7'')],
      body = Some [1, 2], credentialsMode = Include, referrer = None, timestamp = 5\<rparr>"

definition get_object :: stored_object where
  "get_object =
     \<lparr>obj_method = ''GET'', obj_url = ''/list'', obj_headers = [], obj_body = Some [9],
      obj_mode = Omit, obj_referrer = None, obj_timestamp = 0\<rparr>"

definition plain_env :: env where
  "plain_env =
     \<lparr>capture_time = 5, date_now = (\<lambda>k. 10), fetch_ok = (\<lambda>k r. True), add_fails = False,
      getAll_fails = False, delete_fails = (\<lambda>k. False), resumes_first = False,
      resumed = (\<lambda>k h st. False), sw_active = True, sync_supported = True, sync_register_fails = False\<rparr>"


definition orders_queue :: queue where
  "orders_queue = \<lparr>name = ''orders'', callbacks = no_callbacks,
                    maxRetentionTime = MAX_RETENTION_TIME\<rparr>"

definition payments_queue :: queue where
  "payments_queue = \<lparr>name = ''payments'', callbacks = no_callbacks,
                      maxRetentionTime = MAX_RETENTION_TIME\<rparr>"

definition short_queue :: queue where
  "short_queue = \<lparr>name = ''orders'', callbacks = no_callbacks, maxRetentionTime = 5\<rparr>"

definition order_a :: storable where
  "order_a = \<lparr>http_method = ''POST'', url = ''/a'', headers = [], body = Some [1],
              credentialsMode = Include, referrer = None, timestamp = 0\<rparr>"

definition order_b :: storable where
  "order_b = \<lparr>http_method = ''POST'', url = ''/b'', headers = [], body = Some [2],
              credentialsMode = Include, referrer = None, timestamp = 8\<rparr>"

definition shop_world :: world where
  "shop_world =
     \<lparr>names = [''orders'', ''payments''], listeners = [orders_queue, payments_queue],
      store = [(4, \<lparr>queueName = ''orders'', storableRequest = toObject order_a\<rparr>),
               (5, \<lparr>queueName = ''payments'', storableRequest = toObject order_a\<rparr>),
               (6, \<lparr>queueName = ''orders'', storableRequest = toObject order_b\<rparr>)],
      nextKey = 7, pendingRemovals = [], syncTags = [], trace = []\<rparr>"


definition rewrite :: callback where
  "rewrite sr = (sr\<lparr>url := ''/v2''\<rparr>, Returned)"

definition late_rewrite :: callback where
  "late_rewrite sr = (sr, Suspended (\<lambda>s. s\<lparr>url := ''/v2''\<rparr>))"

definition throwing :: callback where
  "throwing sr = (sr, Thrown)"

definition fragile_queue :: queue where
  "fragile_queue =
     \<lparr>name = ''orders'',
      callbacks = no_callbacks\<lparr>replayDidFail := Some throwing\<rparr>,
      maxRetentionTime = MAX_RETENTION_TIME\<rparr>"

definition marking :: callback where
  "marking sr = (sr\<lparr>referrer := Some ''failed''\<rparr>, Returned)"

definition careless_queue :: queue where
  "careless_queue =
     \<lparr>name = ''orders'',
      callbacks = no_callbacks\<lparr>requestWillReplay := Some late_rewrite,
                              requestDidReplay := Some throwing,
                              replayDidFail := Some marking\<rparr>,
      maxRetentionTime = MAX_RETENTION_TIME\<rparr>"

definition hopeless_queue :: queue where
  "hopeless_queue =
     \<lparr>name = ''orders'',
      callbacks = no_callbacks\<lparr>requestDidReplay := Some throwing,
                              replayDidFail := Some throwing\<rparr>,
      maxRetentionTime = MAX_RETENTION_TIME\<rparr>"

definition marking_queue :: queue where
  "marking_queue =
     \<lparr>name = ''orders'',
      callbacks = no_callbacks\<lparr>replayDidFail := Some marking\<rparr>,
      maxRetentionTime = MAX_RETENTION_TIME\<rparr>"

definition offline_env :: env where
  "offline_env = plain_env\<lparr>fetch_ok := (\<lambda>k r. False)\<rparr>"


definition stuck_env :: env where
  "stuck_env = plain_env\<lparr>add_fails := True, delete_fails := (\<lambda>k. True)\<rparr>"

definition eager_env :: env where
  "eager_env = plain_env\<lparr>resumed := (\<lambda>k h st. True)\<rparr>"

definition jammed_env :: env where
  "jammed_env = plain_env\<lparr>delete_fails := (\<lambda>k. k = 4)\<rparr>"

definition down_env :: env where
  "down_env = plain_env\<lparr>getAll_fails := True\<rparr>"

definition rewriting_queue :: queue where
  "rewriting_queue =
     \<lparr>name = ''orders'', callbacks = no_callbacks\<lparr>requestWillQueue := Some rewrite\<rparr>,
      maxRetentionTime = MAX_RETENTION_TIME\<rparr>"

definition async_queue :: queue where
  "async_queue =
     \<lparr>name = ''orders'', callbacks = no_callbacks\<lparr>requestWillQueue := Some late_rewrite\<rparr>,
      maxRetentionTime = MAX_RETENTION_TIME\<rparr>"


section \<open>How the methods change the world\<close>

lemma hook_of_simps:
  "hook_of c RequestWillQueue = requestWillQueue c"
  "hook_of c RequestWillReplay = requestWillReplay c"
  "hook_of c RequestDidReplay = requestDidReplay c"
  "hook_of c ReplayDidFail = replayDidFail c"
  by (simp_all add: hook_of_def)

lemma effect_effect: "effect b ks' (effect a ks w) = effect (a @ b) (ks @ ks') w"
  by (simp add: effect_def conj_commute)

lemma effect_nil: "effect [] [] w = w"
  by (simp add: effect_def)

lemma log_effect: "log ev w = effect [ev] [] w"
  by (simp add: effect_def log_def)

lemma db_delete_effect: "db_delete k w = effect [] [k] w"
  by (simp add: effect_def db_delete_def)

lemma effect_postpone: "effect evs ks (postpone ps w) = postpone ps (effect evs ks w)"
  by (simp add: effect_def postpone_def)

lemma postpone_postpone: "postpone ps (postpone qs w) = postpone (qs @ ps) w"
  by (simp add: postpone_def)

lemma postpone_nil: "postpone [] w = w"
  by (simp add: postpone_def)

lemma effect_fields:
  "trace (effect evs ks w) = trace w @ evs"
  "store (effect evs ks w) = filter (\<lambda>p. fst p \<notin> set ks) (store w)"
  "names (effect evs ks w) = names w"
  "listeners (effect evs ks w) = listeners w"
  "nextKey (effect evs ks w) = nextKey w"
  "syncTags (effect evs ks w) = syncTags w"
  "pendingRemovals (effect evs ks w) = pendingRemovals w"
  by (simp_all add: effect_def)

lemma postpone_fields:
  "trace (postpone ps w) = trace w"
  "store (postpone ps w) = store w"
  "names (postpone ps w) = names w"
  "listeners (postpone ps w) = listeners w"
  "nextKey (postpone ps w) = nextKey w"
  "syncTags (postpone ps w) = syncTags w"
  "pendingRemovals (postpone ps w) = pendingRemovals w @ ps"
  by (simp_all add: postpone_def)

lemma promised_Thrown: "promised h Thrown = []"
  by (simp add: promised_def)

lemma replayFailed_eq:
  "replayFailed q c w =
     (failResult q c, failCell q c, effect [Callback ReplayDidFail [fst c]] [] w)"
  by (cases "snd (apply_callback (replayDidFail (callbacks q)) (fst c))")
     (simp_all add: replayFailed_def runCallback_def hook_of_simps log_effect failResult_def
        failCell_def promised_def)

lemma failResult_not_True: "failResult q c \<noteq> Inr True"
  by (simp add: failResult_def)

lemma removeRequest_eq:
  "removeRequest e k w =
     ((if delete_fails e k then Inl StorageFailure else Inr ()),
      effect [RemoveRequest k] (if delete_fails e k then [] else [k]) w)"
  by (simp add: removeRequest_def startRemoval_def completeRemoval_def log_effect
        db_delete_effect effect_effect)

lemma replayRequest_willReplay_throws:
  assumes "snd (willReplay q sr) = Thrown"
  shows "replayRequest q e k sr w =
     (failResult q (fst (willReplay q sr), []), failCell q (fst (willReplay q sr), []),
      effect [Callback RequestWillReplay [sr],
              Callback ReplayDidFail [fst (willReplay q sr)]] [] w)"
  using assms
  by (simp add: replayRequest_def runCallback_def hook_of_simps willReplay_def replayFailed_eq
        log_effect effect_effect)

lemma replayRequest_fetch_fails:
  assumes "snd (willReplay q sr) \<noteq> Thrown"
    and "\<not> fetch_ok e k (toRequest (fst (willReplay q sr)))"
  shows "replayRequest q e k sr w =
     (failResult q (atFetched q e k sr), failCell q (atFetched q e k sr),
      effect [Callback RequestWillReplay [sr], Fetch (toRequest (fst (willReplay q sr))),
              Callback ReplayDidFail [fst (atFetched q e k sr)]] [] w)"
  using assms
  by (cases "snd (willReplay q sr)")
     (simp_all add: replayRequest_def runCallback_def hook_of_simps willReplay_def
        atFetched_def replayFailed_eq log_effect effect_effect Let_def)

lemma replayRequest_didReplay_throws:
  assumes "snd (willReplay q sr) \<noteq> Thrown"
    and "fetch_ok e k (toRequest (fst (willReplay q sr)))"
    and "snd (didReplay q e k sr) = Thrown"
  shows "replayRequest q e k sr w =
     (failResult q (fst (didReplay q e k sr), snd (atFetched q e k sr)),
      failCell q (fst (didReplay q e k sr), snd (atFetched q e k sr)),
      effect [Callback RequestWillReplay [sr], Fetch (toRequest (fst (willReplay q sr))),
              Callback RequestDidReplay [fst (atFetched q e k sr)],
              Callback ReplayDidFail [fst (didReplay q e k sr)]] [] w)"
  using assms
  by (cases "snd (willReplay q sr)")
     (simp_all add: replayRequest_def runCallback_def hook_of_simps willReplay_def
        atFetched_def didReplay_def replayFailed_eq log_effect effect_effect Let_def)

lemma replayRequest_delete_fails:
  assumes "snd (willReplay q sr) \<noteq> Thrown"
    and "fetch_ok e k (toRequest (fst (willReplay q sr)))"
    and "snd (didReplay q e k sr) \<noteq> Thrown"
    and "delete_fails e k"
  shows "replayRequest q e k sr w =
     (failResult q (atRemoved q e k sr), failCell q (atRemoved q e k sr),
      effect [Callback RequestWillReplay [sr], Fetch (toRequest (fst (willReplay q sr))),
              Callback RequestDidReplay [fst (atFetched q e k sr)], RemoveRequest k,
              Callback ReplayDidFail [fst (atRemoved q e k sr)]] [] w)"
  using assms
  by (cases "snd (willReplay q sr)"; cases "snd (didReplay q e k sr)")
     (simp_all add: replayRequest_def runCallback_def hook_of_simps willReplay_def
        atFetched_def didReplay_def atRemoved_def removeRequest_eq replayFailed_eq log_effect
        effect_effect Let_def)

lemma replayRequest_succeeds:
  assumes "snd (willReplay q sr) \<noteq> Thrown"
    and "fetch_ok e k (toRequest (fst (willReplay q sr)))"
    and "snd (didReplay q e k sr) \<noteq> Thrown"
    and "\<not> delete_fails e k"
  shows "replayRequest q e k sr w =
     (Inr True, atRemoved q e k sr,
      effect [Callback RequestWillReplay [sr], Fetch (toRequest (fst (willReplay q sr))),
              Callback RequestDidReplay [fst (atFetched q e k sr)], RemoveRequest k] [k] w)"
  using assms
  by (cases "snd (willReplay q sr)"; cases "snd (didReplay q e k sr)")
     (simp_all add: replayRequest_def runCallback_def hook_of_simps willReplay_def
        atFetched_def didReplay_def atRemoved_def removeRequest_eq log_effect
        effect_effect Let_def)

lemma replayRequest_uniform:
  "\<exists>r c evs. \<forall>w. replayRequest q e k sr w = (r, c, effect evs (if r = Inr True then [k] else []) w)"
proof -
  consider (a) "snd (willReplay q sr) = Thrown"
    | (b) "snd (willReplay q sr) \<noteq> Thrown" "\<not> fetch_ok e k (toRequest (fst (willReplay q sr)))"
    | (c) "snd (willReplay q sr) \<noteq> Thrown" "fetch_ok e k (toRequest (fst (willReplay q sr)))"
          "snd (didReplay q e k sr) = Thrown"
    | (d) "snd (willReplay q sr) \<noteq> Thrown" "fetch_ok e k (toRequest (fst (willReplay q sr)))"
          "snd (didReplay q e k sr) \<noteq> Thrown" "delete_fails e k"
    | (s) "snd (willReplay q sr) \<noteq> Thrown" "fetch_ok e k (toRequest (fst (willReplay q sr)))"
          "snd (didReplay q e k sr) \<noteq> Thrown" "\<not> delete_fails e k"
    by blast
  then show ?thesis
  proof cases
    case a
    have "\<forall>w. replayRequest q e k sr w =
            (failResult q (fst (willReplay q sr), []), failCell q (fst (willReplay q sr), []),
             effect [Callback RequestWillReplay [sr],
                     Callback ReplayDidFail [fst (willReplay q sr)]]
               (if failResult q (fst (willReplay q sr), []) = Inr True then [k] else []) w)"
      by (simp add: replayRequest_willReplay_throws[OF a] failResult_not_True)
    then show ?thesis by blast
  next
    case b
    have "\<forall>w. replayRequest q e k sr w =
            (failResult q (atFetched q e k sr), failCell q (atFetched q e k sr),
             effect [Callback RequestWillReplay [sr], Fetch (toRequest (fst (willReplay q sr))),
                     Callback ReplayDidFail [fst (atFetched q e k sr)]]
               (if failResult q (atFetched q e k sr) = Inr True then [k] else []) w)"
      by (simp add: replayRequest_fetch_fails[OF b] failResult_not_True)
    then show ?thesis by blast
  next
    case c
    have "\<forall>w. replayRequest q e k sr w =
            (failResult q (fst (didReplay q e k sr), snd (atFetched q e k sr)),
             failCell q (fst (didReplay q e k sr), snd (atFetched q e k sr)),
             effect [Callback RequestWillReplay [sr], Fetch (toRequest (fst (willReplay q sr))),
                     Callback RequestDidReplay [fst (atFetched q e k sr)],
                     Callback ReplayDidFail [fst (didReplay q e k sr)]]
               (if failResult q (fst (didReplay q e k sr), snd (atFetched q e k sr)) = Inr True
                then [k] else []) w)"
      by (simp add: replayRequest_didReplay_throws[OF c] failResult_not_True)
    then show ?thesis by blast
  next
    case d
    have "\<forall>w. replayRequest q e k sr w =
            (failResult q (atRemoved q e k sr), failCell q (atRemoved q e k sr),
             effect [Callback RequestWillReplay [sr], Fetch (toRequest (fst (willReplay q sr))),
                     Callback RequestDidReplay [fst (atFetched q e k sr)], RemoveRequest k,
                     Callback ReplayDidFail [fst (atRemoved q e k sr)]]
               (if failResult q (atRemoved q e k sr) = Inr True then [k] else []) w)"
      by (simp add: replayRequest_delete_fails[OF d] failResult_not_True)
    then show ?thesis by blast
  next
    case s
    have "\<forall>w. replayRequest q e k sr w =
            (Inr True, atRemoved q e k sr,
             effect [Callback RequestWillReplay [sr], Fetch (toRequest (fst (willReplay q sr))),
                     Callback RequestDidReplay [fst (atFetched q e k sr)], RemoveRequest k]
               (if (Inr True :: error + bool) = Inr True then [k] else []) w)"
      by (simp add: replayRequest_succeeds[OF s])
    then show ?thesis by blast
  qed
qed

lemma replayRequest_eq:
  "replayRequest q e k sr w =
     (replayResult q e k sr, replayCell q e k sr,
      effect (replayEvents q e k sr) (if replayResult q e k sr = Inr True then [k] else []) w)"
proof -
  obtain r c evs where u: "\<And>w. replayRequest q e k sr w = (r, c, effect evs (if r = Inr True then [k] else []) w)"
    using replayRequest_uniform by blast
  show ?thesis
    unfolding replayResult_def replayCell_def replayEvents_def
    by (simp add: u effect_def initial_world_def)
qed

lemma trace_initial: "trace initial_world = []"
  by (simp add: initial_world_def)

lemma scanEntries_eq:
  "scanEntries q e st w =
     (liveEntries q e st,
      postpone (expiredKeys q e st) (effect (map RemoveRequest (expiredKeys q e st)) [] w))"
proof (induction st arbitrary: w)
  case Nil
  show ?case by (simp add: liveEntries_def expiredKeys_def effect_nil postpone_nil)
next
  case (Cons p st)
  obtain k ent where p: "p = (k, ent)" by (cases p)
  show ?case
  proof (cases "expired q e (k, ent)")
    case True
    have s: "(startRemoval k w)\<lparr>pendingRemovals := pendingRemovals w @ [k]\<rparr> =
             postpone [k] (effect [RemoveRequest k] [] w)"
      by (simp add: startRemoval_def log_def effect_def postpone_def)
    from True show ?thesis
      using Cons.IH[of "postpone [k] (effect [RemoveRequest k] [] w)"]
      by (simp add: p expired_def s effect_postpone postpone_postpone effect_effect
            liveEntries_def expiredKeys_def)
  next
    case False
    then show ?thesis
      using Cons.IH[of w]
      by (auto simp add: p expired_def liveEntries_def expiredKeys_def)
  qed
qed

lemma replayLoop_eq:
  "replayLoop q e live replayed ok w =
     (fst (replayLoop q e live replayed ok initial_world),
      effect (concat (map (entryEvents q e) (processed q e live))) (replayedKeys q e live) w)"
proof (induction live arbitrary: replayed ok w)
  case Nil
  show ?case by (simp add: replayedKeys_def effect_nil)
next
  case (Cons p live)
  obtain k sr where p: "p = (k, sr)" by (cases p)
  show ?case
  proof (cases "replayResult q e k sr")
    case (Inl err)
    then show ?thesis
      by (simp add: p replayRequest_eq[of q e k sr] entryResult_def entryEvents_def replayedKeys_def)
  next
    case (Inr b)
    show ?thesis
    proof (cases b)
      case True
      have 1: "replayLoop q e (p # live) replayed ok w =
               replayLoop q e live (replayed @ [(k, replayCell q e k sr)]) ok
                 (effect (replayEvents q e k sr) [k] w)" for w
        using Inr True by (simp add: p replayRequest_eq[of q e k sr])
      show ?thesis
        unfolding 1
        apply (subst Cons.IH)
        apply (subst (2) Cons.IH)
        using Inr True
        by (simp add: p effect_effect entryResult_def entryEvents_def replayedKeys_def)
    next
      case False
      have 1: "replayLoop q e (p # live) replayed ok w =
               replayLoop q e live replayed False (effect (replayEvents q e k sr) [] w)" for w
        using Inr False by (simp add: p replayRequest_eq[of q e k sr])
      show ?thesis
        unfolding 1
        apply (subst Cons.IH)
        apply (subst (2) Cons.IH)
        using Inr False
        by (simp add: p effect_effect entryResult_def entryEvents_def replayedKeys_def)
    qed
  qed
qed

lemma replayLoop_result_step:
  "fst (replayLoop q e (p # live) replayed ok w) =
     (case entryResult q e p of
        Inl err \<Rightarrow> Inl err
      | Inr True \<Rightarrow> fst (replayLoop q e live (replayed @ [(fst p, entryCell q e p)]) ok w)
      | Inr False \<Rightarrow> fst (replayLoop q e live replayed False w))"
proof -
  obtain k sr where p: "p = (k, sr)" by (cases p)
  have indep: "fst (replayLoop q e live d b w1) = fst (replayLoop q e live d b initial_world)" for d b w1
    by (subst replayLoop_eq) simp
  show ?thesis
    by (simp add: p replayRequest_eq[of q e k sr] entryResult_def entryCell_def indep[of _ _ w]
          indep[of _ _ "effect _ _ _"] split: sum.splits bool.splits)
qed

lemma replayLoop_no_abort:
  "\<forall>p \<in> set live. \<not> isl (entryResult q e p) \<Longrightarrow>
   fst (replayLoop q e live replayed ok w) =
     Inr (replayed @ map (\<lambda>p. (fst p, entryCell q e p))
                       (filter (\<lambda>p. entryResult q e p = Inr True) live),
          ok \<and> (\<forall>p \<in> set live. entryResult q e p = Inr True))"
proof (induction live arbitrary: replayed ok)
  case Nil
  show ?case by simp
next
  case (Cons p live)
  then show ?case
    by (cases "entryResult q e p") (auto simp add: replayLoop_result_step)
qed

lemma processed_no_abort:
  "\<forall>p \<in> set live. \<not> isl (entryResult q e p) \<Longrightarrow> processed q e live = live"
  by (induction live) auto

lemma processed_take: "\<exists>n. processed q e live = take n live"
proof (induction live)
  case Nil
  show ?case by simp
next
  case (Cons p live)
  then obtain n where n: "processed q e live = take n live" by blast
  show ?case
  proof (cases "isl (entryResult q e p)")
    case True
    then have "processed q e (p # live) = take 1 (p # live)" by simp
    then show ?thesis by blast
  next
    case False
    then have "processed q e (p # live) = take (Suc n) (p # live)" by (simp add: n)
    then show ?thesis by blast
  qed
qed

lemma processed_subset: "set (processed q e live) \<subseteq> set live"
  using processed_take[of q e live] by (auto dest: in_set_takeD)

lemma registerSync_eq:
  "trace (registerSync q e w) = trace w @ [RegisterSync (sync_tag q)]"
  "store (registerSync q e w) = store w"
  "names (registerSync q e w) = names w"
  "listeners (registerSync q e w) = listeners w"
  "nextKey (registerSync q e w) = nextKey w"
  "pendingRemovals (registerSync q e w) = pendingRemovals w"
  by (simp_all add: registerSync_def log_def Let_def)

lemma getStorable_eq:
  "getStorableRequestsInQueue q e w =
     (if getAll_fails e then (Inl StorageFailure, effect [GetAll] [] w)
      else (Inr (liveEntries q e (store w)),
            postpone (expiredKeys q e (store w))
              (effect (GetAll # map RemoveRequest (expiredKeys q e (store w))) [] w)))"
  by (simp add: getStorableRequestsInQueue_def scanEntries_eq log_effect effect_effect effect_fields)

lemma pass_events_append: "trace w' = trace w @ evs \<Longrightarrow> pass_events w w' = evs"
  by (simp add: pass_events_def)

lemma runCallback_all_fields:
  "trace (snd (runCallback_all q srs w)) = trace w @ [Callback AllRequestsDidReplay srs]"
  "store (snd (runCallback_all q srs w)) = store w"
  "names (snd (runCallback_all q srs w)) = names w"
  "listeners (snd (runCallback_all q srs w)) = listeners w"
  "nextKey (snd (runCallback_all q srs w)) = nextKey w"
  "pendingRemovals (snd (runCallback_all q srs w)) = pendingRemovals w"
  by (simp_all add: runCallback_all_def log_def split: option.splits)

lemma replayRequests_getAll_fails:
  "getAll_fails e \<Longrightarrow>
   replayRequests q e w = (Inl StorageFailure, effect [ReplayRequests (name q), GetAll] [] w)"
  by (simp add: replayRequests_def getStorable_eq log_effect effect_effect)

lemma replayRequests_unfold:
  assumes "\<not> getAll_fails e"
  shows "replayRequests q e w =
     (let live = liveEntries q e (store w);
          w1 = postpone (expiredKeys q e (store w))
                 (effect (ReplayRequests (name q) # GetAll #
                            map RemoveRequest (expiredKeys q e (store w))) [] w);
          w2 = effect (concat (map (entryEvents q e) (processed q e live)))
                 (replayedKeys q e live) w1
      in if live = [] then (Inr (), w1)
         else (case loopResult q e live of
                 Inl err \<Rightarrow> (Inl err, w2)
               | Inr (replayed, ok) \<Rightarrow>
                   if ok then
                     ((if fst (runCallback_all q (finalSnapshots e replayed) w2) = Thrown
                       then Inl CallbackError else Inr ()),
                      snd (runCallback_all q (finalSnapshots e replayed) w2))
                   else (Inr (), registerSync q e w2)))"
proof -
  have g: "getStorableRequestsInQueue q e (log (ReplayRequests (name q)) w) =
        (Inr (liveEntries q e (store w)),
         postpone (expiredKeys q e (store w))
           (effect (ReplayRequests (name q) # GetAll #
                         map RemoveRequest (expiredKeys q e (store w))) [] w))"
    using assms by (simp add: getStorable_eq log_effect effect_effect effect_fields)
  show ?thesis
    unfolding replayRequests_def g
    apply (simp add: Let_def del: replayLoop.simps)
    apply (subst replayLoop_eq)
    apply (simp add: loopResult_def split: sum.splits prod.splits bool.splits completion.splits del: replayLoop.simps)
    done
qed

lemma replayRequests_trace:
  assumes "\<not> getAll_fails e"
  shows "trace (snd (replayRequests q e w)) =
     trace w @ ReplayRequests (name q) # GetAll #
       map RemoveRequest (expiredKeys q e (store w)) @
       concat (map (entryEvents q e) (processed q e (liveEntries q e (store w)))) @
       passTail q e (liveEntries q e (store w))"
  by (simp add: replayRequests_unfold[OF assms] Let_def passTail_def effect_fields postpone_fields
        runCallback_all_fields registerSync_eq split: sum.splits prod.splits)

lemma replayRequests_store:
  assumes "\<not> getAll_fails e"
  shows "store (snd (replayRequests q e w)) =
     filter (\<lambda>p. fst p \<notin> set (replayedKeys q e (liveEntries q e (store w)))) (store w)"
  by (simp add: replayRequests_unfold[OF assms] Let_def effect_fields postpone_fields
        runCallback_all_fields registerSync_eq replayedKeys_def split: sum.splits prod.splits)

lemma replayRequests_pending:
  assumes "\<not> getAll_fails e"
  shows "pendingRemovals (snd (replayRequests q e w)) =
           pendingRemovals w @ expiredKeys q e (store w)"
  by (simp add: replayRequests_unfold[OF assms] Let_def effect_fields postpone_fields
        runCallback_all_fields registerSync_eq split: sum.splits prod.splits)

lemma replayRequests_frame:
  "names (snd (replayRequests q e w)) = names w"
  "listeners (snd (replayRequests q e w)) = listeners w"
  "nextKey (snd (replayRequests q e w)) = nextKey w"
proof -
  show "names (snd (replayRequests q e w)) = names w"
    by (cases "getAll_fails e")
       (simp_all add: replayRequests_getAll_fails replayRequests_unfold Let_def effect_fields
          postpone_fields runCallback_all_fields registerSync_eq split: sum.splits prod.splits)
  show "listeners (snd (replayRequests q e w)) = listeners w"
    by (cases "getAll_fails e")
       (simp_all add: replayRequests_getAll_fails replayRequests_unfold Let_def effect_fields
          postpone_fields runCallback_all_fields registerSync_eq split: sum.splits prod.splits)
  show "nextKey (snd (replayRequests q e w)) = nextKey w"
    by (cases "getAll_fails e")
       (simp_all add: replayRequests_getAll_fails replayRequests_unfold Let_def effect_fields
          postpone_fields runCallback_all_fields registerSync_eq split: sum.splits prod.splits)
qed

lemma replayRequests_result:
  assumes "\<not> getAll_fails e"
  shows "fst (replayRequests q e w) =
     (let live = liveEntries q e (store w) in
      if live = [] then Inr ()
      else (case loopResult q e live of
              Inl err \<Rightarrow> Inl err
            | Inr (replayed, ok) \<Rightarrow>
                if ok \<and> (case allRequestsDidReplay (callbacks q) of
                            None \<Rightarrow> False | Some f \<Rightarrow> f (finalSnapshots e replayed) = Thrown)
                then Inl CallbackError else Inr ()))"
  by (simp add: replayRequests_unfold[OF assms] Let_def runCallback_all_def
        split: sum.splits prod.splits option.splits)

lemma completeRemoval_fields:
  "store (snd (completeRemoval e k w)) =
     (if delete_fails e k then store w else filter (\<lambda>p. fst p \<noteq> k) (store w))"
  "names (snd (completeRemoval e k w)) = names w"
  "listeners (snd (completeRemoval e k w)) = listeners w"
  "nextKey (snd (completeRemoval e k w)) = nextKey w"
  "trace (snd (completeRemoval e k w)) = trace w"
  "pendingRemovals (snd (completeRemoval e k w)) = pendingRemovals w"
  by (simp_all add: completeRemoval_def db_delete_def)

lemma settle_fold:
  "store (fold (\<lambda>k w'. snd (completeRemoval e k w')) ks w) =
     filter (\<lambda>p. \<not> (fst p \<in> set ks \<and> \<not> delete_fails e (fst p))) (store w) \<and>
   names (fold (\<lambda>k w'. snd (completeRemoval e k w')) ks w) = names w \<and>
   listeners (fold (\<lambda>k w'. snd (completeRemoval e k w')) ks w) = listeners w \<and>
   nextKey (fold (\<lambda>k w'. snd (completeRemoval e k w')) ks w) = nextKey w \<and>
   trace (fold (\<lambda>k w'. snd (completeRemoval e k w')) ks w) = trace w \<and>
   pendingRemovals (fold (\<lambda>k w'. snd (completeRemoval e k w')) ks w) = pendingRemovals w"
proof (induction ks arbitrary: w)
  case Nil
  show ?case by simp
next
  case (Cons k ks)
  show ?case
    by (cases "delete_fails e k")
       (auto simp add: Cons.IH completeRemoval_fields intro: filter_cong)
qed

lemma settleRemovals_fields:
  "store (settleRemovals e w) =
     filter (\<lambda>p. \<not> (fst p \<in> set (pendingRemovals w) \<and> \<not> delete_fails e (fst p))) (store w)"
  "names (settleRemovals e w) = names w"
  "listeners (settleRemovals e w) = listeners w"
  "nextKey (settleRemovals e w) = nextKey w"
  "trace (settleRemovals e w) = trace w"
  "pendingRemovals (settleRemovals e w) = []"
  by (simp_all add: settleRemovals_def settle_fold)

lemma entry_willReplay_throws:
  assumes "snd (willReplay q sr) = Thrown"
  shows "entryEvents q e (k, sr) =
           [Callback RequestWillReplay [sr], Callback ReplayDidFail [fst (willReplay q sr)]]"
    and "entryResult q e (k, sr) = failResult q (fst (willReplay q sr), [])"
    and "entryCell q e (k, sr) = failCell q (fst (willReplay q sr), [])"
  by (simp_all add: entryEvents_def entryResult_def entryCell_def replayEvents_def
        replayResult_def replayCell_def replayRequest_willReplay_throws[OF assms]
        effect_fields trace_initial)

lemma entry_fetch_fails:
  assumes "snd (willReplay q sr) \<noteq> Thrown"
    and "\<not> fetch_ok e k (toRequest (fst (willReplay q sr)))"
  shows "entryEvents q e (k, sr) =
           [Callback RequestWillReplay [sr], Fetch (toRequest (fst (willReplay q sr))),
            Callback ReplayDidFail [fst (atFetched q e k sr)]]"
    and "entryResult q e (k, sr) = failResult q (atFetched q e k sr)"
    and "entryCell q e (k, sr) = failCell q (atFetched q e k sr)"
  by (simp_all add: entryEvents_def entryResult_def entryCell_def replayEvents_def
        replayResult_def replayCell_def replayRequest_fetch_fails[OF assms]
        effect_fields trace_initial)

lemma entry_didReplay_throws:
  assumes "snd (willReplay q sr) \<noteq> Thrown"
    and "fetch_ok e k (toRequest (fst (willReplay q sr)))"
    and "snd (didReplay q e k sr) = Thrown"
  shows "entryEvents q e (k, sr) =
           [Callback RequestWillReplay [sr], Fetch (toRequest (fst (willReplay q sr))),
            Callback RequestDidReplay [fst (atFetched q e k sr)],
            Callback ReplayDidFail [fst (didReplay q e k sr)]]"
    and "entryResult q e (k, sr) =
           failResult q (fst (didReplay q e k sr), snd (atFetched q e k sr))"
    and "entryCell q e (k, sr) =
           failCell q (fst (didReplay q e k sr), snd (atFetched q e k sr))"
  by (simp_all add: entryEvents_def entryResult_def entryCell_def replayEvents_def
        replayResult_def replayCell_def replayRequest_didReplay_throws[OF assms]
        effect_fields trace_initial)

lemma entry_delete_fails:
  assumes "snd (willReplay q sr) \<noteq> Thrown"
    and "fetch_ok e k (toRequest (fst (willReplay q sr)))"
    and "snd (didReplay q e k sr) \<noteq> Thrown"
    and "delete_fails e k"
  shows "entryEvents q e (k, sr) =
           [Callback RequestWillReplay [sr], Fetch (toRequest (fst (willReplay q sr))),
            Callback RequestDidReplay [fst (atFetched q e k sr)], RemoveRequest k,
            Callback ReplayDidFail [fst (atRemoved q e k sr)]]"
    and "entryResult q e (k, sr) = failResult q (atRemoved q e k sr)"
    and "entryCell q e (k, sr) = failCell q (atRemoved q e k sr)"
  by (simp_all add: entryEvents_def entryResult_def entryCell_def replayEvents_def
        replayResult_def replayCell_def replayRequest_delete_fails[OF assms]
        effect_fields trace_initial)

lemma entry_succeeds:
  assumes "snd (willReplay q sr) \<noteq> Thrown"
    and "fetch_ok e k (toRequest (fst (willReplay q sr)))"
    and "snd (didReplay q e k sr) \<noteq> Thrown"
    and "\<not> delete_fails e k"
  shows "entryEvents q e (k, sr) =
           [Callback RequestWillReplay [sr], Fetch (toRequest (fst (willReplay q sr))),
            Callback RequestDidReplay [fst (atFetched q e k sr)], RemoveRequest k]"
    and "entryResult q e (k, sr) = Inr True"
    and "entryCell q e (k, sr) = atRemoved q e k sr"
  by (simp_all add: entryEvents_def entryResult_def entryCell_def replayEvents_def
        replayResult_def replayCell_def replayRequest_succeeds[OF assms]
        effect_fields trace_initial)

lemma entry_cases:
  obtains (willReplay_throws) "snd (willReplay q sr) = Thrown"
  | (fetch_fails) "snd (willReplay q sr) \<noteq> Thrown"
      "\<not> fetch_ok e k (toRequest (fst (willReplay q sr)))"
  | (didReplay_throws) "snd (willReplay q sr) \<noteq> Thrown"
      "fetch_ok e k (toRequest (fst (willReplay q sr)))" "snd (didReplay q e k sr) = Thrown"
  | (delete_fails) "snd (willReplay q sr) \<noteq> Thrown"
      "fetch_ok e k (toRequest (fst (willReplay q sr)))" "snd (didReplay q e k sr) \<noteq> Thrown"
      "delete_fails e k"
  | (succeeds) "snd (willReplay q sr) \<noteq> Thrown"
      "fetch_ok e k (toRequest (fst (willReplay q sr)))" "snd (didReplay q e k sr) \<noteq> Thrown"
      "\<not> delete_fails e k"
  by blast

lemma failResult_cases: "failResult q c = Inl CallbackError \<or> failResult q c = Inr False"
  by (simp add: failResult_def)

lemma entryResult_cases:
  "entryResult q e p = Inl CallbackError \<or> entryResult q e p = Inr False \<or>
   entryResult q e p = Inr True"
proof -
  obtain k sr where p: "p = (k, sr)" by (cases p)
  show ?thesis
  proof (cases rule: entry_cases[where q=q and sr=sr and e=e and k=k])
    case willReplay_throws
    then show ?thesis by (simp add: p entry_willReplay_throws failResult_def)
  next
    case fetch_fails
    then show ?thesis by (simp add: p entry_fetch_fails failResult_def)
  next
    case didReplay_throws
    then show ?thesis by (simp add: p entry_didReplay_throws failResult_def)
  next
    case delete_fails
    then show ?thesis by (simp add: p entry_delete_fails failResult_def)
  next
    case succeeds
    then show ?thesis by (simp add: p entry_succeeds)
  qed
qed

lemma success_needs_delete:
  assumes "entryResult q e (k, sr) = Inr True"
  shows "\<not> delete_fails e k"
proof (cases rule: entry_cases[where q=q and sr=sr and e=e and k=k])
  case willReplay_throws
  then show ?thesis using assms failResult_not_True by (simp add: entry_willReplay_throws)
next
  case fetch_fails
  then show ?thesis using assms failResult_not_True by (simp add: entry_fetch_fails)
next
  case didReplay_throws
  then show ?thesis using assms failResult_not_True by (simp add: entry_didReplay_throws)
next
  case delete_fails
  then show ?thesis using assms failResult_not_True by (simp add: entry_delete_fails)
next
  case succeeds
  then show ?thesis by simp
qed

lemma entryEvents_cases:
  "\<exists>r a b c.
     entryEvents q e (k, sr) = [Callback RequestWillReplay [sr], Callback ReplayDidFail [a]] \<or>
     entryEvents q e (k, sr) = [Callback RequestWillReplay [sr], Fetch r,
                                Callback ReplayDidFail [a]] \<or>
     entryEvents q e (k, sr) = [Callback RequestWillReplay [sr], Fetch r,
                                Callback RequestDidReplay [a], Callback ReplayDidFail [b]] \<or>
     entryEvents q e (k, sr) = [Callback RequestWillReplay [sr], Fetch r,
                                Callback RequestDidReplay [a], RemoveRequest k,
                                Callback ReplayDidFail [b]] \<or>
     entryEvents q e (k, sr) = [Callback RequestWillReplay [sr], Fetch r,
                                Callback RequestDidReplay [a], RemoveRequest k]"
proof (cases rule: entry_cases[where q=q and sr=sr and e=e and k=k])
  case willReplay_throws
  from entry_willReplay_throws(1)[OF this] show ?thesis by blast
next
  case fetch_fails
  from entry_fetch_fails(1)[OF this] show ?thesis by blast
next
  case didReplay_throws
  from entry_didReplay_throws(1)[OF this] show ?thesis by blast
next
  case delete_fails
  from entry_delete_fails(1)[OF this] show ?thesis by blast
next
  case succeeds
  from entry_succeeds(1)[OF this] show ?thesis by blast
qed

lemma loopResult_Inl:
  "fst (replayLoop q e live replayed ok w) = Inl err \<Longrightarrow> err = CallbackError"
proof (induction live arbitrary: replayed ok)
  case Nil
  then show ?case by simp
next
  case (Cons p live)
  from entryResult_cases[of q e p] Cons show ?case
    by (auto simp add: replayLoop_result_step)
qed

lemma loop_all_ok:
  "fst (replayLoop q e live replayed ok w) = Inr (d, True) \<Longrightarrow>
   ok \<and> (\<forall>p \<in> set live. entryResult q e p = Inr True)"
proof (induction live arbitrary: replayed ok)
  case Nil
  then show ?case by simp
next
  case (Cons p live)
  from entryResult_cases[of q e p] show ?case
  proof (elim disjE)
    assume "entryResult q e p = Inl CallbackError"
    with Cons.prems show ?thesis by (simp add: replayLoop_result_step)
  next
    assume r: "entryResult q e p = Inr False"
    with Cons.prems have "fst (replayLoop q e live replayed False w) = Inr (d, True)"
      by (simp add: replayLoop_result_step)
    from Cons.IH[OF this] show ?thesis by simp
  next
    assume r: "entryResult q e p = Inr True"
    with Cons.prems have "fst (replayLoop q e live (replayed @ [(fst p, entryCell q e p)]) ok w)
                            = Inr (d, True)"
      by (simp add: replayLoop_result_step)
    from Cons.IH[OF this] r show ?thesis by simp
  qed
qed

lemma passes_append: "passes (xs @ ys) = passes xs @ passes ys"
  by (induction xs rule: passes.induct) simp_all

lemma registrations_append: "registrations (xs @ ys) = registrations xs @ registrations ys"
  by (induction xs rule: registrations.induct) simp_all

lemma fetches_append: "fetches (xs @ ys) = fetches xs @ fetches ys"
  by (induction xs rule: fetches.induct) simp_all

lemma hook_calls_append: "hook_calls h (xs @ ys) = hook_calls h xs @ hook_calls h ys"
  by (induction h xs rule: hook_calls.induct) simp_all

lemma removals_quiet:
  "passes (map RemoveRequest ks) = []"
  "registrations (map RemoveRequest ks) = []"
  "fetches (map RemoveRequest ks) = []"
  "hook_calls h (map RemoveRequest ks) = []"
  by (induction ks) simp_all

lemma entryEvents_quiet:
  "passes (entryEvents q e p) = []"
  "registrations (entryEvents q e p) = []"
  "hook_calls AllRequestsDidReplay (entryEvents q e p) = []"
  "hook_calls RequestWillQueue (entryEvents q e p) = []"
  using entryEvents_cases[of q e "fst p" "snd p"]
  by auto

lemma blocks_quiet:
  "passes (concat (map (entryEvents q e) ps)) = []"
  "registrations (concat (map (entryEvents q e) ps)) = []"
  "hook_calls AllRequestsDidReplay (concat (map (entryEvents q e) ps)) = []"
  "hook_calls RequestWillQueue (concat (map (entryEvents q e) ps)) = []"
  by (induction ps)
     (simp_all add: passes_append registrations_append hook_calls_append entryEvents_quiet)

lemma entryEvents_shape:
  "\<exists>rest. entryEvents q e p = Callback RequestWillReplay [snd p] # rest \<and>
          length (fetches rest) \<le> 1"
  using entryEvents_cases[of q e "fst p" "snd p"]
  by auto

lemma passTail_passes: "passes (passTail q e live) = []"
  by (simp add: passTail_def split: sum.splits prod.splits)

lemma replayRequests_passes:
  "\<exists>evs. trace (snd (replayRequests q e w)) = trace w @ evs \<and> passes evs = [name q]"
proof (cases "getAll_fails e")
  case True
  then show ?thesis
    by (simp add: replayRequests_getAll_fails effect_fields)
next
  case False
  show ?thesis
    by (simp add: replayRequests_trace[OF False] passes_append removals_quiet blocks_quiet
          passTail_passes)
qed

lemma fold_replay_passes:
  "\<exists>evs. trace (fold (\<lambda>q w'. snd (replayRequests q e w')) qs w) = trace w @ evs \<and>
         passes evs = map name qs"
proof (induction qs arbitrary: w)
  case Nil
  show ?case by simp
next
  case (Cons q qs)
  obtain evs1 where 1: "trace (snd (replayRequests q e w)) = trace w @ evs1" "passes evs1 = [name q]"
    using replayRequests_passes by blast
  obtain evs2 where 2: "trace (fold (\<lambda>q w'. snd (replayRequests q e w')) qs (snd (replayRequests q e w)))
         = trace (snd (replayRequests q e w)) @ evs2" "passes evs2 = map name qs"
    using Cons.IH by blast
  have "trace (fold (\<lambda>q w'. snd (replayRequests q e w')) (q # qs) w) = trace w @ (evs1 @ evs2)"
    using 1 2 by simp
  moreover have "passes (evs1 @ evs2) = map name (q # qs)"
    using 1 2 by (simp add: passes_append)
  ultimately show ?case by blast
qed

lemma addRequest_eq:
  assumes "fromRequest (capture_time e) r = Inr sr"
  shows "addRequest q e r w =
     (let res = apply_callback (requestWillQueue (callbacks q)) sr;
          w1 = log (Callback RequestWillQueue [sr]) w;
          ent = \<lparr>queueName = name q, storableRequest = toObject (persisted e res)\<rparr>
      in if snd res = Thrown then (Inl CallbackError, w1)
         else if add_fails e then (Inl StorageFailure, log (Add ent) w1)
         else (Inr (), registerSync q e (db_add ent (log (Add ent) w1))))"
  by (cases "snd (apply_callback (requestWillQueue (callbacks q)) sr)")
     (simp_all add: addRequest_def assms runCallback_def hook_of_simps persisted_def Let_def)

lemma addRequest_frame:
  "names (snd (addRequest q e r w)) = names w"
  "listeners (snd (addRequest q e r w)) = listeners w"
  by (simp_all add: addRequest_def runCallback_def log_def db_add_def registerSync_def Let_def
        split: sum.splits completion.splits)

lemma dispatchSync_frame_aux:
  "names (fold (\<lambda>q w'. snd (replayRequests q e w')) qs w) = names w \<and>
   listeners (fold (\<lambda>q w'. snd (replayRequests q e w')) qs w) = listeners w"
  by (induction qs arbitrary: w) (simp_all add: replayRequests_frame)

lemma dispatchSync_frame:
  "names (dispatchSync t e w) = names w"
  "listeners (dispatchSync t e w) = listeners w"
  by (simp_all add: dispatchSync_def dispatchSync_frame_aux)

lemma constructor_duplicate:
  "n \<in> set (names w) \<Longrightarrow> Queue_constructor n mrt cbs e w = (Inl (DuplicateQueueName n), w)"
  by (simp add: Queue_constructor_def)

lemma constructor_fresh:
  assumes "n \<notin> set (names w)"
  shows "\<exists>q. fst (Queue_constructor n mrt cbs e w) = Inr q \<and> name q = n \<and>
           names (snd (Queue_constructor n mrt cbs e w)) = names w @ [n] \<and>
           listeners (snd (Queue_constructor n mrt cbs e w)) = listeners w @ [q]"
  using assms
  by (simp add: Queue_constructor_def addSyncListener_def Let_def replayRequests_frame)

lemma step_names:
  "set (names (step a w)) = set (names w) \<union> constructed [a]"
proof -
  obtain e act where a: "a = (e, act)" by (cases a)
  show ?thesis
  proof (cases act)
    case (Construct n mrt cbs)
    show ?thesis
    proof (cases "n \<in> set (names w)")
      case True
      then show ?thesis by (auto simp add: a Construct constructor_duplicate)
    next
      case False
      from constructor_fresh[OF this, of mrt cbs e] show ?thesis
        by (auto simp add: a Construct)
    qed
  next
    case (Enqueue q r)
    then show ?thesis by (simp add: a addRequest_frame)
  next
    case (Replay q)
    then show ?thesis by (simp add: a replayRequests_frame)
  next
    case (Sync t)
    then show ?thesis by (simp add: a dispatchSync_frame)
  next
    case Settle
    then show ?thesis by (simp add: a settleRemovals_fields)
  qed
qed

lemma constructed_Cons: "constructed (a # acts) = constructed [a] \<union> constructed acts"
  by (cases a, cases "snd a") auto

lemma run_names: "set (names (run acts w)) = set (names w) \<union> constructed acts"
proof (induction acts arbitrary: w)
  case Nil
  show ?case by (simp add: run_def)
next
  case (Cons a acts)
  have "run (a # acts) w = run acts (step a w)" by (simp add: run_def)
  then show ?case
    using Cons.IH[of "step a w"] step_names[of a w] constructed_Cons[of a acts] by auto
qed

lemma step_listeners:
  "\<exists>qs. listeners (step a w) = listeners w @ qs"
proof -
  obtain e act where a: "a = (e, act)" by (cases a)
  show ?thesis
  proof (cases act)
    case (Construct n mrt cbs)
    show ?thesis
    proof (cases "n \<in> set (names w)")
      case True
      then show ?thesis by (simp add: a Construct constructor_duplicate)
    next
      case False
      from constructor_fresh[OF this, of mrt cbs e] show ?thesis
        by (auto simp add: a Construct)
    qed
  next
    case (Enqueue q r)
    then show ?thesis by (simp add: a addRequest_frame)
  next
    case (Replay q)
    then show ?thesis by (simp add: a replayRequests_frame)
  next
    case (Sync t)
    then show ?thesis by (simp add: a dispatchSync_frame)
  next
    case Settle
    then show ?thesis by (simp add: a settleRemovals_fields)
  qed
qed

lemma run_listeners: "\<exists>qs. listeners (run acts w) = listeners w @ qs"
proof (induction acts arbitrary: w)
  case Nil
  show ?case by (simp add: run_def)
next
  case (Cons a acts)
  obtain qs1 where 1: "listeners (step a w) = listeners w @ qs1"
    using step_listeners by blast
  obtain qs2 where 2: "listeners (run acts (step a w)) = listeners (step a w) @ qs2"
    using Cons.IH by blast
  have "run (a # acts) w = run acts (step a w)" by (simp add: run_def)
  then show ?case using 1 2 by simp
qed

lemma liveEntries_keys_sorted:
  assumes "sorted_wrt (<) (map fst st)"
  shows "sorted_wrt (<) (map fst (liveEntries q e st))"
proof -
  have "map fst (liveEntries q e st) =
        map fst (filter (\<lambda>p. queueName (snd p) = name q \<and> \<not> expired q e p) st)"
    by (simp add: liveEntries_def comp_def)
  moreover have "sorted_wrt (\<lambda>x y. fst x < fst y) st"
    using assms by (simp add: sorted_wrt_map)
  ultimately show ?thesis
    by (simp add: sorted_wrt_map sorted_wrt_filter)
qed

lemma store_keys_distinct:
  assumes "store_ok w" "(k, ent) \<in> set (store w)" "(k, ent') \<in> set (store w)"
  shows "ent' = ent"
proof -
  have "sorted_wrt (<) (map fst (store w))" using assms(1) by (simp add: store_ok_def)
  then have "distinct (map fst (store w))"
    by (simp add: strict_sorted_iff)
  then show ?thesis using assms(2,3)
    by (meson eq_key_imp_eq_value)
qed

lemma expired_not_live:
  assumes "store_ok w" "(k, ent) \<in> set (store w)" "expired q e (k, ent)"
  shows "k \<notin> fst ` set (liveEntries q e (store w))"
proof
  assume "k \<in> fst ` set (liveEntries q e (store w))"
  then obtain ent' where "(k, ent') \<in> set (store w)" "\<not> expired q e (k, ent')"
    by (auto simp add: liveEntries_def)
  with store_keys_distinct[OF assms(1,2)] assms(3) show False by blast
qed

lemma live_member:
  assumes "(k, ent) \<in> set (store w)" "queueName ent = name q"
    and "\<not> date_now e k - timestamp (fromObject (storableRequest ent)) > maxRetentionTime q"
  shows "(k, fromObject (storableRequest ent)) \<in> set (liveEntries q e (store w))"
  using assms by (force simp add: liveEntries_def expired_def)

lemma live_key_unique:
  assumes "store_ok w" "(k, ent) \<in> set (store w)" "(k, sr) \<in> set (liveEntries q e (store w))"
  shows "sr = fromObject (storableRequest ent)"
proof -
  from assms(3) obtain ent' where "(k, ent') \<in> set (store w)" "sr = fromObject (storableRequest ent')"
    by (auto simp add: liveEntries_def)
  with store_keys_distinct[OF assms(1,2)] show ?thesis by blast
qed

lemma replayed_is_live:
  "k \<in> set (replayedKeys q e live) \<Longrightarrow>
   \<exists>sr. (k, sr) \<in> set live \<and> entryResult q e (k, sr) = Inr True"
  using processed_subset[of q e live] by (fastforce simp add: replayedKeys_def)

lemma failed_entry_stays:
  assumes "store_ok w" "\<not> getAll_fails e" "(k, ent) \<in> set (store w)"
    and "entryResult q e (k, fromObject (storableRequest ent)) \<noteq> Inr True"
  shows "(k, ent) \<in> set (store (snd (replayRequests q e w)))"
proof -
  have "k \<notin> set (replayedKeys q e (liveEntries q e (store w)))"
  proof
    assume "k \<in> set (replayedKeys q e (liveEntries q e (store w)))"
    then obtain sr where a: "(k, sr) \<in> set (liveEntries q e (store w))"
      "entryResult q e (k, sr) = Inr True"
      using replayed_is_live by blast
    from live_key_unique[OF assms(1,3) a(1)] a(2) assms(4) show False by simp
  qed
  then show ?thesis
    using assms(3) by (simp add: replayRequests_store[OF assms(2)])
qed

lemma expired_entry_stays:
  assumes "store_ok w" "\<not> getAll_fails e" "(k, ent) \<in> set (store w)" "expired q e (k, ent)"
  shows "(k, ent) \<in> set (store (snd (replayRequests q e w)))"
proof -
  have "k \<notin> set (replayedKeys q e (liveEntries q e (store w)))"
    using replayed_is_live[of k q e "liveEntries q e (store w)"]
      expired_not_live[OF assms(1,3,4)] by force
  then show ?thesis
    using assms(3) by (simp add: replayRequests_store[OF assms(2)])
qed

lemma passTail_not_all:
  assumes "p \<in> set live" "entryResult q e p \<noteq> Inr True"
  shows "hook_calls AllRequestsDidReplay (passTail q e live) = []"
proof (cases "loopResult q e live")
  case (Inl err)
  then show ?thesis by (simp add: passTail_def)
next
  case (Inr r)
  obtain d ok where r: "r = (d, ok)" by (cases r)
  have "\<not> ok"
  proof
    assume ok
    with Inr r have "fst (replayLoop q e live [] True initial_world) = Inr (d, True)"
      by (simp add: loopResult_def)
    from loop_all_ok[OF this] assms show False by blast
  qed
  then show ?thesis using Inr r by (simp add: passTail_def)
qed

lemma pass_events_eq:
  assumes "\<not> getAll_fails e"
  shows "pass_events w (snd (replayRequests q e w)) =
           ReplayRequests (name q) # GetAll #
           map RemoveRequest (expiredKeys q e (store w)) @
           concat (map (entryEvents q e) (processed q e (liveEntries q e (store w)))) @
           passTail q e (liveEntries q e (store w))"
  by (rule pass_events_append) (simp add: replayRequests_trace[OF assms])

lemma pass_hook_calls_all:
  assumes "\<not> getAll_fails e"
  shows "hook_calls AllRequestsDidReplay (pass_events w (snd (replayRequests q e w))) =
         hook_calls AllRequestsDidReplay (passTail q e (liveEntries q e (store w)))"
  by (simp add: pass_events_eq[OF assms] hook_calls_append removals_quiet blocks_quiet)

lemma pass_registrations:
  assumes "\<not> getAll_fails e"
  shows "registrations (pass_events w (snd (replayRequests q e w))) =
         registrations (passTail q e (liveEntries q e (store w)))"
  by (simp add: pass_events_eq[OF assms] registrations_append removals_quiet blocks_quiet)

lemma failed_delete_keeps_entry:
  assumes "\<not> getAll_fails e" "p \<in> set (store w)" "delete_fails e (fst p)"
  shows "p \<in> set (store (snd (replayRequests q e w)))"
    and "p \<in> set (store (settleRemovals e (snd (replayRequests q e w))))"
proof -
  have "fst p \<notin> set (replayedKeys q e (liveEntries q e (store w)))"
  proof
    assume "fst p \<in> set (replayedKeys q e (liveEntries q e (store w)))"
    then obtain sr where "entryResult q e (fst p, sr) = Inr True"
      using replayed_is_live by blast
    from success_needs_delete[OF this] assms(3) show False by simp
  qed
  then show 1: "p \<in> set (store (snd (replayRequests q e w)))"
    using assms(2) by (simp add: replayRequests_store[OF assms(1)])
  then show "p \<in> set (store (settleRemovals e (snd (replayRequests q e w))))"
    using assms(3) by (simp add: settleRemovals_fields)
qed

lemma replayRequests_no_storage_failure:
  assumes "\<not> getAll_fails e"
  shows "fst (replayRequests q e w) \<noteq> Inl StorageFailure"
proof (cases "loopResult q e (liveEntries q e (store w))")
  case (Inl err)
  then have "err = CallbackError"
    unfolding loopResult_def by (rule loopResult_Inl)
  with Inl show ?thesis
    by (simp add: replayRequests_result[OF assms] Let_def)
next
  case (Inr r)
  then show ?thesis
    by (simp add: replayRequests_result[OF assms] Let_def split: prod.splits)
qed

lemma store_ok_filter:
  assumes "store_ok w" "store w' = filter P (store w)" "nextKey w' = nextKey w"
  shows "store_ok w'"
proof -
  have "sorted_wrt (\<lambda>x y. fst x < fst y) (store w)"
    using assms(1) by (simp add: store_ok_def sorted_wrt_map)
  then have "sorted_wrt (\<lambda>x y. fst x < fst y) (filter P (store w))"
    by (rule sorted_wrt_filter)
  then show ?thesis
    using assms by (auto simp add: store_ok_def sorted_wrt_map)
qed

lemma store_ok_replayRequests:
  assumes "store_ok w"
  shows "store_ok (snd (replayRequests q e w))"
proof (cases "getAll_fails e")
  case True
  show ?thesis
    by (rule store_ok_filter[OF assms, of _ "\<lambda>p. True"])
       (simp_all add: replayRequests_getAll_fails[OF True] effect_fields)
next
  case False
  show ?thesis
    by (rule store_ok_filter[OF assms])
       (rule replayRequests_store[OF False], rule replayRequests_frame)
qed

lemma store_ok_settle:
  assumes "store_ok w"
  shows "store_ok (settleRemovals e w)"
  by (rule store_ok_filter[OF assms]) (rule settleRemovals_fields)+

lemma store_ok_addRequest:
  assumes "store_ok w"
  shows "store_ok (snd (addRequest q e r w))"
proof (cases "fromRequest (capture_time e) r")
  case (Inl err)
  then show ?thesis using assms by (simp add: addRequest_def)
next
  case (Inr sr)
  have a: "store_ok (db_add ent w)" if "store_ok w" for ent w
    using that by (auto simp add: store_ok_def db_add_def sorted_wrt_append less_SucI)
  have l: "store_ok (log ev w) = store_ok w" for ev w
    by (simp add: store_ok_def log_def)
  have r: "store_ok (registerSync q e w) = store_ok w" for w
    by (simp add: store_ok_def registerSync_eq)
  show ?thesis
    using assms by (simp add: addRequest_eq[OF Inr] Let_def a l r)
qed

lemma store_ok_fold_replay:
  "store_ok w \<Longrightarrow> store_ok (fold (\<lambda>q w'. snd (replayRequests q e w')) qs w)"
  by (induction qs arbitrary: w) (simp_all add: store_ok_replayRequests)

lemma store_ok_step:
  assumes "store_ok w"
  shows "store_ok (step a w)"
proof -
  obtain e act where a: "a = (e, act)" by (cases a)
  have f: "store_ok (w\<lparr>names := ns\<rparr>) = store_ok w" "store_ok (w\<lparr>listeners := ls\<rparr>) = store_ok w"
    for w ns ls
    by (simp_all add: store_ok_def)
  show ?thesis
  proof (cases act)
    case (Construct n mrt cbs)
    then show ?thesis
      using assms
      by (simp add: a Queue_constructor_def addSyncListener_def Let_def f store_ok_replayRequests)
  next
    case (Enqueue q r)
    then show ?thesis using assms by (simp add: a store_ok_addRequest)
  next
    case (Replay q)
    then show ?thesis using assms by (simp add: a store_ok_replayRequests)
  next
    case (Sync t)
    then show ?thesis using assms by (simp add: a dispatchSync_def store_ok_fold_replay)
  next
    case Settle
    then show ?thesis using assms by (simp add: a store_ok_settle)
  qed
qed

lemma store_ok_run: "store_ok w \<Longrightarrow> store_ok (run acts w)"
  unfolding run_def by (induction acts arbitrary: w) (simp_all add: store_ok_step)

lemma store_ok_reachable: "store_ok (run acts initial_world)"
  by (rule store_ok_run) (simp add: store_ok_def initial_world_def)

lemma fromObject_toObject: "fromObject (toObject s) = s"
  by (simp add: fromObject_def toObject_def)

lemma resume_nothing: "resume e k st (sr, []) = (sr, [])"
  by (simp add: resume_def)

lemma resume_none:
  assumes "\<And>h. \<not> resumed e k h st"
  shows "resume e k st c = c"
  by (simp add: resume_def assms)

lemma resume_all:
  assumes "\<And>h. resumed e k h st"
  shows "resume e k st c = (fold (\<lambda>p s. snd p s) (snd c) (fst c), [])"
  by (simp add: resume_def assms)

lemma quiet_stages:
  assumes "requestWillReplay (callbacks q) = None" "requestDidReplay (callbacks q) = None"
  shows "willReplay q sr = (sr, Returned)"
    and "atFetched q e k sr = (sr, [])"
    and "didReplay q e k sr = (sr, Returned)"
    and "atRemoved q e k sr = (sr, [])"
  by (simp_all add: willReplay_def atFetched_def didReplay_def atRemoved_def assms
        apply_callback_def promised_def resume_nothing)

lemma quiet_fail:
  assumes "replayDidFail (callbacks q) = None"
  shows "failResult q c = Inr False" and "failCell q c = c"
  by (simp_all add: failResult_def failCell_def assms apply_callback_def promised_def)

lemma no_callbacks_fields:
  "requestWillQueue no_callbacks = None" "requestWillReplay no_callbacks = None"
  "requestDidReplay no_callbacks = None" "replayDidFail no_callbacks = None"
  "allRequestsDidReplay no_callbacks = None"
  by (simp_all add: no_callbacks_def)

lemma plain_facts:
  "\<not> getAll_fails plain_env" "date_now plain_env = (\<lambda>k. 10)" "fetch_ok plain_env k r"
  "\<not> delete_fails plain_env k" "\<not> add_fails plain_env" "capture_time plain_env = 5"
  "\<not> resumes_first plain_env" "\<not> resumed plain_env k h st"
  by (simp_all add: plain_env_def)

lemma offline_facts:
  "\<not> getAll_fails offline_env" "date_now offline_env = (\<lambda>k. 10)" "\<not> fetch_ok offline_env k r"
  "\<not> delete_fails offline_env k" "\<not> resumed offline_env k h st"
  by (simp_all add: offline_env_def plain_env_def)

lemma stuck_facts:
  "\<not> getAll_fails stuck_env" "date_now stuck_env = (\<lambda>k. 10)" "fetch_ok stuck_env k r"
  "delete_fails stuck_env k" "add_fails stuck_env" "capture_time stuck_env = 5"
  "\<not> resumed stuck_env k h st"
  by (simp_all add: stuck_env_def plain_env_def)

lemma eager_facts:
  "\<not> getAll_fails eager_env" "date_now eager_env = (\<lambda>k. 10)" "fetch_ok eager_env k r"
  "\<not> delete_fails eager_env k" "resumed eager_env k h st"
  by (simp_all add: eager_env_def plain_env_def)

lemma jammed_facts:
  "\<not> getAll_fails jammed_env" "date_now jammed_env = (\<lambda>k. 10)" "fetch_ok jammed_env k r"
  "delete_fails jammed_env k = (k = 4)"
  by (simp_all add: jammed_env_def plain_env_def)

lemma down_facts: "getAll_fails down_env"
  by (simp add: down_env_def)

lemma orders_facts:
  "callbacks orders_queue = no_callbacks" "name orders_queue = ''orders''"
  "maxRetentionTime orders_queue = MAX_RETENTION_TIME"
  by (simp_all add: orders_queue_def)

lemma short_facts:
  "callbacks short_queue = no_callbacks" "name short_queue = ''orders''"
  "maxRetentionTime short_queue = 5"
  by (simp_all add: short_queue_def)

lemma fragile_facts:
  "name fragile_queue = ''orders''"
  "maxRetentionTime fragile_queue = MAX_RETENTION_TIME"
  "requestWillReplay (callbacks fragile_queue) = None"
  "requestDidReplay (callbacks fragile_queue) = None"
  "replayDidFail (callbacks fragile_queue) = Some throwing"
  by (simp_all add: fragile_queue_def no_callbacks_def)

lemma marking_facts:
  "name marking_queue = ''orders''"
  "maxRetentionTime marking_queue = MAX_RETENTION_TIME"
  "requestWillReplay (callbacks marking_queue) = None"
  "requestDidReplay (callbacks marking_queue) = None"
  "replayDidFail (callbacks marking_queue) = Some marking"
  by (simp_all add: marking_queue_def no_callbacks_def)

lemma careless_facts:
  "name careless_queue = ''orders''"
  "maxRetentionTime careless_queue = MAX_RETENTION_TIME"
  "requestWillReplay (callbacks careless_queue) = Some late_rewrite"
  "requestDidReplay (callbacks careless_queue) = Some throwing"
  "replayDidFail (callbacks careless_queue) = Some marking"
  by (simp_all add: careless_queue_def no_callbacks_def)

lemma hopeless_facts:
  "name hopeless_queue = ''orders''"
  "maxRetentionTime hopeless_queue = MAX_RETENTION_TIME"
  "requestWillReplay (callbacks hopeless_queue) = None"
  "requestDidReplay (callbacks hopeless_queue) = Some throwing"
  "replayDidFail (callbacks hopeless_queue) = Some throwing"
  by (simp_all add: hopeless_queue_def no_callbacks_def)

lemma shop_store_ok: "store_ok shop_world"
  by (simp add: store_ok_def shop_world_def)

lemma shop_members:
  "(4, \<lparr>queueName = ''orders'', storableRequest = toObject order_a\<rparr>) \<in> set (store shop_world)"
  "(6, \<lparr>queueName = ''orders'', storableRequest = toObject order_b\<rparr>) \<in> set (store shop_world)"
  by (simp_all add: shop_world_def)

lemma shop_fields: "nextKey shop_world = 7" "pendingRemovals shop_world = []"
  by (simp_all add: shop_world_def)

lemma order_times: "timestamp order_a = 0" "timestamp order_b = 8"
  by (simp_all add: order_a_def order_b_def)

lemma shop_live_any:
  assumes "name q = ''orders''" "maxRetentionTime q = MAX_RETENTION_TIME"
    "date_now e = (\<lambda>k. 10)"
  shows "liveEntries q e (store shop_world) = [(4, order_a), (6, order_b)]"
    and "expiredKeys q e (store shop_world) = []"
  by (simp_all add: liveEntries_def expiredKeys_def expired_def shop_world_def assms
        MAX_RETENTION_TIME_def fromObject_toObject order_a_def order_b_def)

lemma shop_live_short:
  assumes "date_now e = (\<lambda>k. 10)"
  shows "liveEntries short_queue e (store shop_world) = [(6, order_b)]"
    and "expiredKeys short_queue e (store shop_world) = [4]"
  by (simp_all add: liveEntries_def expiredKeys_def expired_def shop_world_def assms
        short_queue_def fromObject_toObject order_a_def order_b_def)

lemma quiet_success:
  assumes "callbacks q = no_callbacks" "\<And>r. fetch_ok e k r" "\<not> delete_fails e k"
  shows "entryEvents q e (k, sr) =
     [Callback RequestWillReplay [sr], Fetch (toRequest sr), Callback RequestDidReplay [sr],
      RemoveRequest k]"
    and "entryResult q e (k, sr) = Inr True"
    and "entryCell q e (k, sr) = (sr, [])"
proof -
  note st = quiet_stages[of q, unfolded assms(1), OF no_callbacks_fields(2,3), folded assms(1)]
  have a: "snd (willReplay q sr) \<noteq> Thrown" "fetch_ok e k (toRequest (fst (willReplay q sr)))"
    "snd (didReplay q e k sr) \<noteq> Thrown" "\<not> delete_fails e k"
    by (simp_all add: st assms)
  show "entryEvents q e (k, sr) =
     [Callback RequestWillReplay [sr], Fetch (toRequest sr), Callback RequestDidReplay [sr],
      RemoveRequest k]"
    by (simp add: entry_succeeds(1)[OF a] st)
  show "entryResult q e (k, sr) = Inr True"
    by (rule entry_succeeds(2)[OF a])
  show "entryCell q e (k, sr) = (sr, [])"
    by (simp add: entry_succeeds(3)[OF a] st)
qed

lemma offline_failure:
  assumes "requestWillReplay (callbacks q) = None" "requestDidReplay (callbacks q) = None"
  shows "entryEvents q offline_env (k, sr) =
     [Callback RequestWillReplay [sr], Fetch (toRequest sr), Callback ReplayDidFail [sr]]"
    and "entryResult q offline_env (k, sr) = failResult q (sr, [])"
proof -
  note st = quiet_stages[OF assms]
  have a: "snd (willReplay q sr) \<noteq> Thrown"
    "\<not> fetch_ok offline_env k (toRequest (fst (willReplay q sr)))"
    by (simp_all add: st offline_facts)
  show "entryEvents q offline_env (k, sr) =
     [Callback RequestWillReplay [sr], Fetch (toRequest sr), Callback ReplayDidFail [sr]]"
    by (simp add: entry_fetch_fails(1)[OF a] st)
  show "entryResult q offline_env (k, sr) = failResult q (sr, [])"
    by (simp add: entry_fetch_fails(2)[OF a] st)
qed

lemma stuck_failure:
  assumes "requestWillReplay (callbacks q) = None" "requestDidReplay (callbacks q) = None"
  shows "entryEvents q stuck_env (k, sr) =
     [Callback RequestWillReplay [sr], Fetch (toRequest sr), Callback RequestDidReplay [sr],
      RemoveRequest k, Callback ReplayDidFail [sr]]"
    and "entryResult q stuck_env (k, sr) = failResult q (sr, [])"
    and "entryCell q stuck_env (k, sr) = failCell q (sr, [])"
proof -
  note st = quiet_stages[OF assms]
  have a: "snd (willReplay q sr) \<noteq> Thrown"
    "fetch_ok stuck_env k (toRequest (fst (willReplay q sr)))"
    "snd (didReplay q stuck_env k sr) \<noteq> Thrown" "delete_fails stuck_env k"
    by (simp_all add: st stuck_facts)
  show "entryEvents q stuck_env (k, sr) =
     [Callback RequestWillReplay [sr], Fetch (toRequest sr), Callback RequestDidReplay [sr],
      RemoveRequest k, Callback ReplayDidFail [sr]]"
    by (simp add: entry_delete_fails(1)[OF a] st)
  show "entryResult q stuck_env (k, sr) = failResult q (sr, [])"
    by (simp add: entry_delete_fails(2)[OF a] st)
  show "entryCell q stuck_env (k, sr) = failCell q (sr, [])"
    by (simp add: entry_delete_fails(3)[OF a] st)
qed

lemma post_capture: "fromRequest 5 post_request = Inr post_snapshot"
  by (simp add: permitsBody_def fromRequest_def post_request_def post_snapshot_def)

lemma rewriting_facts:
  "name rewriting_queue = ''orders''"
  "requestWillQueue (callbacks rewriting_queue) = Some rewrite"
  "apply_callback (requestWillQueue (callbacks rewriting_queue)) s = rewrite s"
  by (simp_all add: rewriting_queue_def no_callbacks_def apply_callback_def)

lemma async_facts:
  "name async_queue = ''orders''"
  "requestWillQueue (callbacks async_queue) = Some late_rewrite"
  "apply_callback (requestWillQueue (callbacks async_queue)) s = late_rewrite s"
  by (simp_all add: async_queue_def no_callbacks_def apply_callback_def)

lemma finalSnapshots_quiet:
  "finalSnapshots e (map (\<lambda>p. (fst p, (snd p, []))) live) = map snd live"
  by (simp add: finalSnapshots_def resume_nothing comp_def)

lemma quiet_pass:
  assumes "callbacks q = no_callbacks"
    and "\<forall>p \<in> set live. (\<forall>r. fetch_ok e (fst p) r) \<and> \<not> delete_fails e (fst p)"
  shows "processed q e live = live"
    and "loopResult q e live = Inr (map (\<lambda>p. (fst p, (snd p, []))) live, True)"
    and "concat (map (entryEvents q e) live) =
           concat (map (\<lambda>p. [Callback RequestWillReplay [snd p], Fetch (toRequest (snd p)),
                              Callback RequestDidReplay [snd p], RemoveRequest (fst p)]) live)"
proof -
  have ok: "entryResult q e p = Inr True" "entryCell q e p = (snd p, [])"
    "entryEvents q e p = [Callback RequestWillReplay [snd p], Fetch (toRequest (snd p)),
                          Callback RequestDidReplay [snd p], RemoveRequest (fst p)]"
    if "p \<in> set live" for p
  proof -
    obtain k sr where p: "p = (k, sr)" by (cases p)
    from assms(2) that p have f: "\<And>r. fetch_ok e k r" and d: "\<not> delete_fails e k" by auto
    show "entryResult q e p = Inr True"
      unfolding p by (rule quiet_success(2)[OF assms(1) f d])
    show "entryCell q e p = (snd p, [])"
      unfolding p by (simp add: quiet_success(3)[OF assms(1) f d])
    show "entryEvents q e p = [Callback RequestWillReplay [snd p], Fetch (toRequest (snd p)),
                          Callback RequestDidReplay [snd p], RemoveRequest (fst p)]"
      unfolding p by (simp add: quiet_success(1)[OF assms(1) f d])
  qed
  have na: "\<forall>p \<in> set live. \<not> isl (entryResult q e p)"
    by (simp add: ok)
  show "processed q e live = live"
    by (rule processed_no_abort[OF na])
  have "filter (\<lambda>p. entryResult q e p = Inr True) live = live"
    by (simp add: ok)
  then show "loopResult q e live = Inr (map (\<lambda>p. (fst p, (snd p, []))) live, True)"
    unfolding loopResult_def
    by (subst replayLoop_no_abort[OF na]) (simp add: ok)
  show "concat (map (entryEvents q e) live) =
           concat (map (\<lambda>p. [Callback RequestWillReplay [snd p], Fetch (toRequest (snd p)),
                              Callback RequestDidReplay [snd p], RemoveRequest (fst p)]) live)"
    by (rule arg_cong[where f=concat]) (simp add: ok)
qed

lemma fragile_offline:
  "liveEntries fragile_queue offline_env (store shop_world) = [(4, order_a), (6, order_b)]"
  "expiredKeys fragile_queue offline_env (store shop_world) = []"
  "entryEvents fragile_queue offline_env (4, order_a) =
     [Callback RequestWillReplay [order_a], Fetch (toRequest order_a),
      Callback ReplayDidFail [order_a]]"
  "entryResult fragile_queue offline_env (4, order_a) = Inl CallbackError"
  "processed fragile_queue offline_env [(4, order_a), (6, order_b)] = [(4, order_a)]"
  "loopResult fragile_queue offline_env [(4, order_a), (6, order_b)] = Inl CallbackError"
  "passTail fragile_queue offline_env [(4, order_a), (6, order_b)] = []"
proof -
  show "liveEntries fragile_queue offline_env (store shop_world) = [(4, order_a), (6, order_b)]"
    "expiredKeys fragile_queue offline_env (store shop_world) = []"
    by (rule shop_live_any; simp add: fragile_facts offline_facts)+
  show ev: "entryEvents fragile_queue offline_env (4, order_a) =
     [Callback RequestWillReplay [order_a], Fetch (toRequest order_a),
      Callback ReplayDidFail [order_a]]"
    by (rule offline_failure(1)[OF fragile_facts(3,4)])
  show res: "entryResult fragile_queue offline_env (4, order_a) = Inl CallbackError"
    by (simp add: offline_failure(2)[OF fragile_facts(3,4)] failResult_def fragile_facts
          apply_callback_def throwing_def)
  show "processed fragile_queue offline_env [(4, order_a), (6, order_b)] = [(4, order_a)]"
    by (simp add: res)
  show lr: "loopResult fragile_queue offline_env [(4, order_a), (6, order_b)] = Inl CallbackError"
    by (simp add: loopResult_def replayLoop_result_step res del: replayLoop.simps)
  show "passTail fragile_queue offline_env [(4, order_a), (6, order_b)] = []"
    by (simp add: passTail_def lr)
qed

lemma short_pass:
  assumes "date_now e = (\<lambda>k. 10)" "\<not> getAll_fails e" "\<And>r. fetch_ok e 6 r"
    "\<not> delete_fails e 6"
  shows "pass_events shop_world (snd (replayRequests short_queue e shop_world)) =
     [ReplayRequests ''orders'', GetAll, RemoveRequest 4,
      Callback RequestWillReplay [order_b], Fetch (toRequest order_b),
      Callback RequestDidReplay [order_b], RemoveRequest 6,
      Callback AllRequestsDidReplay [order_b]]"
    and "fst (replayRequests short_queue e shop_world) = Inr ()"
proof -
  note live = shop_live_short[OF assms(1)]
  have a: "\<forall>p \<in> set [(6::nat, order_b)]. (\<forall>r. fetch_ok e (fst p) r) \<and> \<not> delete_fails e (fst p)"
    by (simp add: assms)
  note qp = quiet_pass[OF short_facts(1) a]
  have t: "passTail short_queue e [(6, order_b)] = [Callback AllRequestsDidReplay [order_b]]"
    using finalSnapshots_quiet[of e "[(6, order_b)]"]
    by (simp add: passTail_def qp(2))
  show "pass_events shop_world (snd (replayRequests short_queue e shop_world)) =
     [ReplayRequests ''orders'', GetAll, RemoveRequest 4,
      Callback RequestWillReplay [order_b], Fetch (toRequest order_b),
      Callback RequestDidReplay [order_b], RemoveRequest 6,
      Callback AllRequestsDidReplay [order_b]]"
    using pass_events_eq[OF assms(2), of shop_world short_queue, unfolded live qp t]
    by (simp add: short_facts)
  show "fst (replayRequests short_queue e shop_world) = Inr ()"
    by (simp add: replayRequests_result[OF assms(2)] live qp(2) short_facts no_callbacks_fields)
qed

lemma order_a_expired:
  assumes "date_now e = (\<lambda>k. 10)"
  shows "date_now e 4 - timestamp (fromObject (storableRequest
             \<lparr>queueName = ''orders'', storableRequest = toObject order_a\<rparr>))
           > maxRetentionTime short_queue"
  by (simp add: assms short_facts fromObject_toObject order_times)

lemma failed_pass_registers:
  assumes "\<not> getAll_fails e" "p \<in> set (liveEntries q e (store w))"
    and "entryResult q e p \<noteq> Inr True"
    and "\<forall>p \<in> set (liveEntries q e (store w)). \<not> isl (entryResult q e p)"
  shows "registrations (pass_events w (snd (replayRequests q e w))) = [sync_tag q]"
proof -
  have ne: "liveEntries q e (store w) \<noteq> []"
    using assms(2) by auto
  have "\<not> (\<forall>p \<in> set (liveEntries q e (store w)). entryResult q e p = Inr True)"
    using assms(2,3) by blast
  then have "passTail q e (liveEntries q e (store w)) = [RegisterSync (sync_tag q)]"
    by (simp add: passTail_def ne loopResult_def replayLoop_no_abort[OF assms(4)])
  then show ?thesis
    by (simp add: pass_registrations[OF assms(1)])
qed

lemma careless_eager:
  "willReplay careless_queue sr = (sr, Suspended (\<lambda>s. s\<lparr>url := ''/v2''\<rparr>))"
  "atFetched careless_queue eager_env k sr = (sr\<lparr>url := ''/v2''\<rparr>, [])"
  "didReplay careless_queue eager_env k sr = (sr\<lparr>url := ''/v2''\<rparr>, Thrown)"
  "apply_callback (replayDidFail (callbacks careless_queue)) s =
     (s\<lparr>referrer := Some ''failed''\<rparr>, Returned)"
proof -
  show w: "willReplay careless_queue sr = (sr, Suspended (\<lambda>s. s\<lparr>url := ''/v2''\<rparr>))"
    by (simp add: willReplay_def careless_facts apply_callback_def late_rewrite_def)
  show f: "atFetched careless_queue eager_env k sr = (sr\<lparr>url := ''/v2''\<rparr>, [])"
    by (simp add: atFetched_def w promised_def resume_def eager_facts)
  show "didReplay careless_queue eager_env k sr = (sr\<lparr>url := ''/v2''\<rparr>, Thrown)"
    by (simp add: didReplay_def f careless_facts apply_callback_def throwing_def)
  show "apply_callback (replayDidFail (callbacks careless_queue)) s =
     (s\<lparr>referrer := Some ''failed''\<rparr>, Returned)"
    by (simp add: careless_facts apply_callback_def marking_def)
qed

lemma hopeless_plain:
  "willReplay hopeless_queue sr = (sr, Returned)"
  "didReplay hopeless_queue plain_env k sr = (sr, Thrown)"
  "apply_callback (replayDidFail (callbacks hopeless_queue)) s = (s, Thrown)"
proof -
  show w: "willReplay hopeless_queue sr = (sr, Returned)"
    by (simp add: willReplay_def hopeless_facts apply_callback_def)
  have f: "atFetched hopeless_queue plain_env k sr = (sr, [])"
    by (simp add: atFetched_def w promised_def resume_nothing)
  show "didReplay hopeless_queue plain_env k sr = (sr, Thrown)"
    by (simp add: didReplay_def f hopeless_facts apply_callback_def throwing_def)
  show "apply_callback (replayDidFail (callbacks hopeless_queue)) s = (s, Thrown)"
    by (simp add: hopeless_facts apply_callback_def throwing_def)
qed


section \<open>The properties\<close>

text \<open>
  C1. In a pass whose \<^verbatim>\<open>getAll\<close> succeeds, the events are: the entry into
  \<^verbatim>\<open>replayRequests\<close>, the read of the store, the removals started for the expired keys,
  then, for the entries that are replayed, one block of events each, and what follows
  the loop. The blocks stand in the order of the non-expired entries, whose keys ascend;
  the replayed entries are an initial part of them, all of them unless a
  \<^verbatim>\<open>_replayRequest\<close> rejects. A block is what \<^verbatim>\<open>_replayRequest\<close> does for its entry
  alone: it begins with the call of \<open>requestWillReplay\<close> and holds at most one network
  attempt, and nothing outside the blocks is a network attempt. So the attempt for an
  entry comes after every event (callbacks, removal) of the entries before it. The
  assumption on the store, keys ascending, holds in every world reached from the initial
  one (\<open>store_ok_reachable\<close>).
\<close>

theorem replay_in_key_order:
  assumes "store_ok w" and "\<not> getAll_fails e"
  shows "pass_events w (snd (replayRequests q e w)) =
           ReplayRequests (name q) # GetAll #
           map RemoveRequest (expiredKeys q e (store w)) @
           concat (map (entryEvents q e) (processed q e (liveEntries q e (store w)))) @
           passTail q e (liveEntries q e (store w)) \<and>
         sorted_wrt (<) (map fst (liveEntries q e (store w))) \<and>
         (\<exists>n. processed q e (liveEntries q e (store w)) = take n (liveEntries q e (store w))) \<and>
         ((\<forall>p \<in> set (liveEntries q e (store w)). \<not> isl (entryResult q e p)) \<longrightarrow>
            processed q e (liveEntries q e (store w)) = liveEntries q e (store w)) \<and>
         (\<forall>p. \<exists>rest. entryEvents q e p = Callback RequestWillReplay [snd p] # rest \<and>
                     length (fetches rest) \<le> 1) \<and>
         fetches (passTail q e (liveEntries q e (store w))) = [] \<and>
         fetches (map RemoveRequest (expiredKeys q e (store w))) = []"
proof (intro conjI)
  show "pass_events w (snd (replayRequests q e w)) =
           ReplayRequests (name q) # GetAll #
           map RemoveRequest (expiredKeys q e (store w)) @
           concat (map (entryEvents q e) (processed q e (liveEntries q e (store w)))) @
           passTail q e (liveEntries q e (store w))"
    by (rule pass_events_eq[OF assms(2)])
  show "sorted_wrt (<) (map fst (liveEntries q e (store w)))"
    using assms(1) by (simp add: store_ok_def liveEntries_keys_sorted)
  show "\<exists>n. processed q e (liveEntries q e (store w)) = take n (liveEntries q e (store w))"
    by (rule processed_take)
  show "(\<forall>p \<in> set (liveEntries q e (store w)). \<not> isl (entryResult q e p)) \<longrightarrow>
            processed q e (liveEntries q e (store w)) = liveEntries q e (store w)"
    by (simp add: processed_no_abort)
  show "\<forall>p. \<exists>rest. entryEvents q e p = Callback RequestWillReplay [snd p] # rest \<and>
                     length (fetches rest) \<le> 1"
    using entryEvents_shape by blast
  show "fetches (passTail q e (liveEntries q e (store w))) = []"
    by (simp add: passTail_def split: sum.splits prod.splits)
  show "fetches (map RemoveRequest (expiredKeys q e (store w))) = []"
    by (rule removals_quiet)
qed

theorem replay_in_key_order_witness:
  "store_ok shop_world \<and> \<not> getAll_fails plain_env \<and>
   pass_events shop_world (snd (replayRequests orders_queue plain_env shop_world)) =
     [ReplayRequests ''orders'', GetAll,
      Callback RequestWillReplay [order_a], Fetch (toRequest order_a),
      Callback RequestDidReplay [order_a], RemoveRequest 4,
      Callback RequestWillReplay [order_b], Fetch (toRequest order_b),
      Callback RequestDidReplay [order_b], RemoveRequest 6,
      Callback AllRequestsDidReplay [order_a, order_b]] \<and>
   map fst (liveEntries orders_queue plain_env (store shop_world)) = [4, 6]"
proof -
  have live: "liveEntries orders_queue plain_env (store shop_world) = [(4, order_a), (6, order_b)]"
    "expiredKeys orders_queue plain_env (store shop_world) = []"
    by (rule shop_live_any; simp add: orders_facts plain_facts)+
  have a: "\<forall>p \<in> set [(4, order_a), (6::nat, order_b)].
             (\<forall>r. fetch_ok plain_env (fst p) r) \<and> \<not> delete_fails plain_env (fst p)"
    by (simp add: plain_facts)
  note qp = quiet_pass[OF orders_facts(1) a]
  have t: "passTail orders_queue plain_env [(4, order_a), (6, order_b)] =
             [Callback AllRequestsDidReplay [order_a, order_b]]"
    using finalSnapshots_quiet[of plain_env "[(4, order_a), (6, order_b)]"]
    by (simp add: passTail_def qp(2))
  from replay_in_key_order[OF shop_store_ok plain_facts(1), of orders_queue, THEN conjunct1,
         unfolded live qp t]
  show ?thesis
    by (simp add: shop_store_ok plain_facts(1) live orders_facts)
qed

text \<open>
  C2, where the code departs from it. The queue holds two non-expired entries, the
  network is down and the \<open>replayDidFail\<close> callback of the queue throws. The fetch of
  the first entry fails, so that entry has failed, and \<open>replayDidFail\<close> is called for it
  from the \<^verbatim>\<open>catch\<close> block of \<^verbatim>\<open>_replayRequest\<close>. Its throw rejects \<^verbatim>\<open>_replayRequest\<close>
  and, inside the loop, \<^verbatim>\<open>replayRequests\<close>: the pass is over without a call of
  \<open>allRequestsDidReplay\<close> and without a call of \<^verbatim>\<open>_registerSync\<close>. An entry has failed
  and no re-scheduling is attempted.
\<close>

theorem throwing_replayDidFail_skips_registration:
  "snd (apply_callback (replayDidFail (callbacks fragile_queue)) order_a) = Thrown \<and>
   liveEntries fragile_queue offline_env (store shop_world) = [(4, order_a), (6, order_b)] \<and>
   \<not> fetch_ok offline_env 4 (toRequest order_a) \<and>
   entryResult fragile_queue offline_env (4, order_a) = Inl CallbackError \<and>
   hook_calls ReplayDidFail
     (pass_events shop_world (snd (replayRequests fragile_queue offline_env shop_world))) =
     [[order_a]] \<and>
   hook_calls AllRequestsDidReplay
     (pass_events shop_world (snd (replayRequests fragile_queue offline_env shop_world))) = [] \<and>
   registrations
     (pass_events shop_world (snd (replayRequests fragile_queue offline_env shop_world))) = []"
proof -
  have t: "snd (apply_callback (replayDidFail (callbacks fragile_queue)) order_a) = Thrown"
    by (simp add: fragile_facts apply_callback_def throwing_def)
  have ev: "pass_events shop_world (snd (replayRequests fragile_queue offline_env shop_world)) =
     [ReplayRequests ''orders'', GetAll,
      Callback RequestWillReplay [order_a], Fetch (toRequest order_a),
      Callback ReplayDidFail [order_a]]"
    using pass_events_eq[OF offline_facts(1), of shop_world fragile_queue,
            unfolded fragile_offline]
    by (simp add: fragile_facts fragile_offline(3))
  show ?thesis
    by (simp add: t fragile_offline offline_facts ev)
qed

text \<open>
  C3, where the code departs from it. The queue holds two non-expired entries, the
  network is down and the \<open>replayDidFail\<close> callback of the queue throws. The fetch of
  the first entry fails and \<open>replayDidFail\<close> is called with its snapshot; the callback
  throws in the \<^verbatim>\<open>catch\<close> block, which nothing guards. The loop of \<^verbatim>\<open>replayRequests\<close>
  ends there: the second entry is never attempted, and \<^verbatim>\<open>replayRequests\<close> rejects with
  the error of the callback. Both entries are still in the store.
\<close>

theorem throwing_replayDidFail_aborts_pass:
  "\<not> fetch_ok offline_env 4 (toRequest order_a) \<and>
   liveEntries fragile_queue offline_env (store shop_world) = [(4, order_a), (6, order_b)] \<and>
   processed fragile_queue offline_env (liveEntries fragile_queue offline_env (store shop_world))
     = [(4, order_a)] \<and>
   fst (replayRequests fragile_queue offline_env shop_world) = Inl CallbackError \<and>
   pass_events shop_world (snd (replayRequests fragile_queue offline_env shop_world)) =
     [ReplayRequests ''orders'', GetAll,
      Callback RequestWillReplay [order_a], Fetch (toRequest order_a),
      Callback ReplayDidFail [order_a]] \<and>
   store (snd (replayRequests fragile_queue offline_env shop_world)) = store shop_world"
proof -
  have ev: "pass_events shop_world (snd (replayRequests fragile_queue offline_env shop_world)) =
     [ReplayRequests ''orders'', GetAll,
      Callback RequestWillReplay [order_a], Fetch (toRequest order_a),
      Callback ReplayDidFail [order_a]]"
    using pass_events_eq[OF offline_facts(1), of shop_world fragile_queue,
            unfolded fragile_offline]
    by (simp add: fragile_facts fragile_offline(3))
  have r: "fst (replayRequests fragile_queue offline_env shop_world) = Inl CallbackError"
    by (simp add: replayRequests_result[OF offline_facts(1)] fragile_offline)
  have s: "store (snd (replayRequests fragile_queue offline_env shop_world)) = store shop_world"
    by (simp add: replayRequests_store[OF offline_facts(1)] fragile_offline(1,4,5)
          replayedKeys_def)
  show ?thesis
    by (simp add: fragile_offline(1,4) offline_facts ev r s)
qed

text \<open>
  C4, as the code has it. For an entry of the queue whose age at the scan exceeds the
  retention time, the pass starts a removal and skips the entry: the key is among the
  removals left pending, which the pass does not await, and it is not among the entries
  that are replayed. The events of the pass are the removals started, followed by the
  events of the replayed entries, so no callback runs and no request is sent for the
  entry. When the event loop has got to the pending removals, the key is gone from the
  store where the store's \<open>delete\<close> went through; where it was rejected, the entry is
  still there, and nobody was told.
\<close>

theorem expired_entry_is_purged:
  assumes "store_ok w" and "\<not> getAll_fails e"
    and "(k, ent) \<in> set (store w)" and "queueName ent = name q"
    and "date_now e k - timestamp (fromObject (storableRequest ent)) > maxRetentionTime q"
  shows "RemoveRequest k \<in> set (map RemoveRequest (expiredKeys q e (store w))) \<and>
         k \<in> set (pendingRemovals (snd (replayRequests q e w))) \<and>
         k \<notin> fst ` set (processed q e (liveEntries q e (store w))) \<and>
         pass_events w (snd (replayRequests q e w)) =
           ReplayRequests (name q) # GetAll #
           map RemoveRequest (expiredKeys q e (store w)) @
           concat (map (entryEvents q e) (processed q e (liveEntries q e (store w)))) @
           passTail q e (liveEntries q e (store w)) \<and>
         (\<forall>h. hook_calls h (map RemoveRequest (expiredKeys q e (store w))) = []) \<and>
         fetches (map RemoveRequest (expiredKeys q e (store w))) = [] \<and>
         (\<not> delete_fails e' k \<longrightarrow>
            k \<notin> fst ` set (store (settleRemovals e' (snd (replayRequests q e w))))) \<and>
         (delete_fails e' k \<longrightarrow>
            (k, ent) \<in> set (store (settleRemovals e' (snd (replayRequests q e w)))))"
proof -
  have ex: "expired q e (k, ent)"
    using assms(4,5) by (simp add: expired_def)
  have 1: "k \<in> set (expiredKeys q e (store w))"
    using assms(3) ex by (force simp add: expiredKeys_def)
  have 2: "k \<in> set (pendingRemovals (snd (replayRequests q e w)))"
    using 1 by (simp add: replayRequests_pending[OF assms(2)])
  have 3: "k \<notin> fst ` set (processed q e (liveEntries q e (store w)))"
    using expired_not_live[OF assms(1,3) ex] processed_subset[of q e "liveEntries q e (store w)"]
    by blast
  have 4: "k \<notin> fst ` set (store (settleRemovals e' (snd (replayRequests q e w))))"
    if "\<not> delete_fails e' k"
    using 2 that by (auto simp add: settleRemovals_fields)
  have 5: "(k, ent) \<in> set (store (settleRemovals e' (snd (replayRequests q e w))))"
    if "delete_fails e' k"
    using expired_entry_stays[OF assms(1,2,3) ex] that by (simp add: settleRemovals_fields)
  show ?thesis
    using 1 2 3 4 5 pass_events_eq[OF assms(2), of w q] by (simp add: removals_quiet)
qed

theorem expired_entry_is_purged_witness:
  "store_ok shop_world \<and> \<not> getAll_fails plain_env \<and>
   (4, \<lparr>queueName = ''orders'', storableRequest = toObject order_a\<rparr>) \<in> set (store shop_world) \<and>
   date_now plain_env 4 - timestamp (fromObject (toObject order_a)) > maxRetentionTime short_queue \<and>
   pass_events shop_world (snd (replayRequests short_queue plain_env shop_world)) =
     [ReplayRequests ''orders'', GetAll, RemoveRequest 4,
      Callback RequestWillReplay [order_b], Fetch (toRequest order_b),
      Callback RequestDidReplay [order_b], RemoveRequest 6,
      Callback AllRequestsDidReplay [order_b]] \<and>
   4 \<in> set (pendingRemovals (snd (replayRequests short_queue plain_env shop_world))) \<and>
   \<not> delete_fails plain_env 4 \<and>
   4 \<notin> fst ` set (store (settleRemovals plain_env
                          (snd (replayRequests short_queue plain_env shop_world)))) \<and>
   delete_fails jammed_env 4 \<and>
   (4, \<lparr>queueName = ''orders'', storableRequest = toObject order_a\<rparr>)
     \<in> set (store (settleRemovals jammed_env
                     (snd (replayRequests short_queue plain_env shop_world))))"
proof -
  have n: "queueName \<lparr>queueName = ''orders'', storableRequest = toObject order_a\<rparr> = name short_queue"
    by (simp add: short_facts)
  note t = order_a_expired[OF plain_facts(2)]
  note ev = short_pass(1)[OF plain_facts(2) plain_facts(1) plain_facts(3) plain_facts(4)]
  note th = expired_entry_is_purged[OF shop_store_ok plain_facts(1) shop_members(1) n t]
  have d: "delete_fails jammed_env 4" by (simp add: jammed_facts)
  have a: "4 \<in> set (pendingRemovals (snd (replayRequests short_queue plain_env shop_world)))"
    using th[of plain_env] by blast
  have b: "4 \<notin> fst ` set (store (settleRemovals plain_env
                          (snd (replayRequests short_queue plain_env shop_world))))"
    using th[of plain_env] plain_facts(4)[of 4] by blast
  have c: "(4, \<lparr>queueName = ''orders'', storableRequest = toObject order_a\<rparr>)
     \<in> set (store (settleRemovals jammed_env
                     (snd (replayRequests short_queue plain_env shop_world))))"
    using th[of jammed_env] d by blast
  from t show ?thesis
    by (simp add: shop_store_ok plain_facts(1,4) d shop_members(1) ev a b c)
qed

theorem expired_entry_survives_counterexample:
  "(4, \<lparr>queueName = ''orders'', storableRequest = toObject order_a\<rparr>) \<in> set (store shop_world) \<and>
   date_now jammed_env 4 - timestamp (fromObject (toObject order_a))
     > maxRetentionTime short_queue \<and>
   delete_fails jammed_env 4 \<and>
   fst (replayRequests short_queue jammed_env shop_world) = Inr () \<and>
   pass_events shop_world (snd (replayRequests short_queue jammed_env shop_world)) =
     [ReplayRequests ''orders'', GetAll, RemoveRequest 4,
      Callback RequestWillReplay [order_b], Fetch (toRequest order_b),
      Callback RequestDidReplay [order_b], RemoveRequest 6,
      Callback AllRequestsDidReplay [order_b]] \<and>
   (4, \<lparr>queueName = ''orders'', storableRequest = toObject order_a\<rparr>)
     \<in> set (store (settleRemovals jammed_env
                     (snd (replayRequests short_queue jammed_env shop_world))))"
proof -
  have d: "\<not> delete_fails jammed_env 6" "delete_fails jammed_env 4"
    by (simp_all add: jammed_facts)
  note sp = short_pass[OF jammed_facts(2) jammed_facts(1) jammed_facts(3) d(1)]
  have p: "(4, \<lparr>queueName = ''orders'', storableRequest = toObject order_a\<rparr>) \<in> set (store shop_world)"
    by (rule shop_members(1))
  have s: "(4, \<lparr>queueName = ''orders'', storableRequest = toObject order_a\<rparr>)
     \<in> set (store (settleRemovals jammed_env
                     (snd (replayRequests short_queue jammed_env shop_world))))"
    by (rule failed_delete_keeps_entry(2)[OF jammed_facts(1) p]) (simp add: jammed_facts)
  from order_a_expired[OF jammed_facts(2)] show ?thesis
    by (simp add: p d(2) sp s)
qed

text \<open>
  C5, as the code has it. When the queue has a \<open>requestWillQueue\<close> callback and
  \<^verbatim>\<open>addRequest\<close> resolves, the callback did not throw, it was called before the store was
  written, and exactly one entry was appended, at the next key. That entry holds the
  snapshot as the callback left it when it came back, followed by what its continuation
  did only when the callback suspended and the event loop resumed it before
  \<^verbatim>\<open>addRequest\<close> went on: the promise of an asynchronous callback is not awaited.
\<close>

theorem requestWillQueue_before_persist:
  assumes "requestWillQueue (callbacks q) = Some f"
    and "fromRequest (capture_time e) r = Inr sr"
    and "fst (addRequest q e r w) = Inr ()"
  shows "snd (f sr) \<noteq> Thrown \<and>
         pass_events w (snd (addRequest q e r w)) =
           [Callback RequestWillQueue [sr],
            Add \<lparr>queueName = name q, storableRequest = toObject (persisted e (f sr))\<rparr>,
            RegisterSync (sync_tag q)] \<and>
         store (snd (addRequest q e r w)) =
           store w @ [(nextKey w,
                       \<lparr>queueName = name q, storableRequest = toObject (persisted e (f sr))\<rparr>)] \<and>
         (snd (f sr) = Returned \<longrightarrow> persisted e (f sr) = fst (f sr)) \<and>
         (\<forall>k. snd (f sr) = Suspended k \<longrightarrow>
            persisted e (f sr) = (if resumes_first e then k (fst (f sr)) else fst (f sr)))"
proof -
  have ac: "apply_callback (requestWillQueue (callbacks q)) sr = f sr"
    by (simp add: assms(1) apply_callback_def)
  have nt: "snd (f sr) \<noteq> Thrown" and na: "\<not> add_fails e"
    using assms(3) by (auto simp add: addRequest_eq[OF assms(2)] ac Let_def split: if_splits)
  have w': "snd (addRequest q e r w) =
        registerSync q e (db_add \<lparr>queueName = name q, storableRequest = toObject (persisted e (f sr))\<rparr>
          (log (Add \<lparr>queueName = name q, storableRequest = toObject (persisted e (f sr))\<rparr>)
             (log (Callback RequestWillQueue [sr]) w)))"
    using nt na by (simp add: addRequest_eq[OF assms(2)] ac Let_def)
  have 1: "pass_events w (snd (addRequest q e r w)) =
           [Callback RequestWillQueue [sr],
            Add \<lparr>queueName = name q, storableRequest = toObject (persisted e (f sr))\<rparr>,
            RegisterSync (sync_tag q)]"
    by (rule pass_events_append) (simp add: w' registerSync_eq db_add_def log_def)
  have 2: "store (snd (addRequest q e r w)) =
           store w @ [(nextKey w,
                       \<lparr>queueName = name q, storableRequest = toObject (persisted e (f sr))\<rparr>)]"
    by (simp add: w' registerSync_eq db_add_def log_def)
  show ?thesis
    using nt 1 2 by (simp add: persisted_def)
qed

theorem requestWillQueue_before_persist_witness:
  "requestWillQueue (callbacks rewriting_queue) = Some rewrite \<and>
   fromRequest (capture_time plain_env) post_request = Inr post_snapshot \<and>
   fst (addRequest rewriting_queue plain_env post_request shop_world) = Inr () \<and>
   snd (rewrite post_snapshot) = Returned \<and>
   pass_events shop_world (snd (addRequest rewriting_queue plain_env post_request shop_world)) =
     [Callback RequestWillQueue [post_snapshot],
      Add \<lparr>queueName = ''orders'', storableRequest = toObject (post_snapshot\<lparr>url := ''/v2''\<rparr>)\<rparr>,
      RegisterSync (sync_tag rewriting_queue)] \<and>
   store (snd (addRequest rewriting_queue plain_env post_request shop_world)) =
     store shop_world @
     [(7, \<lparr>queueName = ''orders'', storableRequest = toObject (post_snapshot\<lparr>url := ''/v2''\<rparr>)\<rparr>)]"
proof -
  have c: "fromRequest (capture_time plain_env) post_request = Inr post_snapshot"
    by (simp add: plain_facts post_capture)
  have r: "fst (addRequest rewriting_queue plain_env post_request shop_world) = Inr ()"
    by (simp add: addRequest_eq[OF c] rewriting_facts(1,3) rewrite_def plain_facts Let_def)
  have p: "persisted plain_env (rewrite post_snapshot) = post_snapshot\<lparr>url := ''/v2''\<rparr>"
    by (simp add: persisted_def rewrite_def)
  have n: "nextKey shop_world = 7" by (simp add: shop_world_def)
  from requestWillQueue_before_persist[OF rewriting_facts(2) c r]
  show ?thesis
    using c r by (simp add: rewriting_facts p n) (simp add: rewrite_def)
qed

theorem late_mutation_not_persisted_counterexample:
  "requestWillQueue (callbacks async_queue) = Some late_rewrite \<and>
   late_rewrite post_snapshot = (post_snapshot, Suspended (\<lambda>s. s\<lparr>url := ''/v2''\<rparr>)) \<and>
   fromRequest (capture_time plain_env) post_request = Inr post_snapshot \<and>
   fst (addRequest async_queue plain_env post_request shop_world) = Inr () \<and>
   store (snd (addRequest async_queue plain_env post_request shop_world)) =
     store shop_world @
     [(7, \<lparr>queueName = ''orders'', storableRequest = toObject post_snapshot\<rparr>)] \<and>
   obj_url (toObject post_snapshot) = ''/buy''"
proof -
  have c: "fromRequest (capture_time plain_env) post_request = Inr post_snapshot"
    by (simp add: plain_facts post_capture)
  have p: "persisted plain_env (late_rewrite post_snapshot) = post_snapshot"
    by (simp add: persisted_def late_rewrite_def plain_facts)
  have n: "nextKey shop_world = 7" by (simp add: shop_world_def)
  have r: "fst (addRequest async_queue plain_env post_request shop_world) = Inr ()"
    by (simp add: addRequest_eq[OF c] async_facts(1,3) plain_facts Let_def late_rewrite_def)
  have s: "store (snd (addRequest async_queue plain_env post_request shop_world)) =
     store shop_world @
     [(7, \<lparr>queueName = ''orders'', storableRequest = toObject post_snapshot\<rparr>)]"
    using p
    by (simp add: addRequest_eq[OF c] async_facts(1,3) plain_facts Let_def registerSync_eq
          db_add_def log_def n late_rewrite_def)
  show ?thesis
    using c r s by (simp add: async_facts late_rewrite_def toObject_def post_snapshot_def)
qed

text \<open>
  C6, as the code has it. A rejected \<open>add\<close> makes \<^verbatim>\<open>addRequest\<close> reject with the storage
  failure, and a rejected \<open>getAll\<close> does the same to \<^verbatim>\<open>replayRequests\<close>; both leave the
  store as it was. A rejected \<open>delete\<close> never reaches the caller of \<^verbatim>\<open>replayRequests\<close>
  as a storage failure. After a successful fetch it is caught in \<^verbatim>\<open>_replayRequest\<close>:
  the events of the entry end with the removal and the call of \<open>replayDidFail\<close> on the
  snapshot object as it then is, the object left is what that callback made of it, and
  the entry does not count as replayed. For an expired entry the removal is not awaited.
  The entry whose deletion was rejected is in the store after the pass, and still when
  the pending removals have been carried out.
\<close>

theorem store_failure_propagation:
  "(add_fails e \<and> fromRequest (capture_time e) r = Inr sr \<and>
    snd (apply_callback (requestWillQueue (callbacks q)) sr) \<noteq> Thrown \<longrightarrow>
      fst (addRequest q e r w) = Inl StorageFailure \<and>
      store (snd (addRequest q e r w)) = store w) \<and>
   (getAll_fails e \<longrightarrow>
      fst (replayRequests q e w) = Inl StorageFailure \<and>
      store (snd (replayRequests q e w)) = store w) \<and>
   (\<not> getAll_fails e \<longrightarrow>
      fst (replayRequests q e w) \<noteq> Inl StorageFailure \<and>
      (\<forall>p \<in> set (store w). delete_fails e (fst p) \<longrightarrow>
         p \<in> set (store (snd (replayRequests q e w))) \<and>
         p \<in> set (store (settleRemovals e (snd (replayRequests q e w)))))) \<and>
   (delete_fails e k \<longrightarrow> entryResult q e (k, s) \<noteq> Inr True) \<and>
   (delete_fails e k \<and> snd (willReplay q s) \<noteq> Thrown \<and>
    fetch_ok e k (toRequest (fst (willReplay q s))) \<and>
    snd (didReplay q e k s) \<noteq> Thrown \<longrightarrow>
      entryEvents q e (k, s) =
        [Callback RequestWillReplay [s], Fetch (toRequest (fst (willReplay q s))),
         Callback RequestDidReplay [fst (atFetched q e k s)], RemoveRequest k,
         Callback ReplayDidFail [fst (atRemoved q e k s)]] \<and>
      entryResult q e (k, s) =
        (if snd (apply_callback (replayDidFail (callbacks q)) (fst (atRemoved q e k s))) = Thrown
         then Inl CallbackError else Inr False) \<and>
      fst (entryCell q e (k, s)) =
        fst (apply_callback (replayDidFail (callbacks q)) (fst (atRemoved q e k s))))"
proof (intro conjI impI)
  assume a: "add_fails e \<and> fromRequest (capture_time e) r = Inr sr \<and>
    snd (apply_callback (requestWillQueue (callbacks q)) sr) \<noteq> Thrown"
  then show "fst (addRequest q e r w) = Inl StorageFailure"
    by (simp add: addRequest_eq Let_def)
  from a show "store (snd (addRequest q e r w)) = store w"
    by (simp add: addRequest_eq Let_def log_def)
next
  assume "getAll_fails e"
  then show "fst (replayRequests q e w) = Inl StorageFailure"
    and "store (snd (replayRequests q e w)) = store w"
    by (simp_all add: replayRequests_getAll_fails effect_fields)
next
  assume g: "\<not> getAll_fails e"
  show "fst (replayRequests q e w) \<noteq> Inl StorageFailure"
    by (rule replayRequests_no_storage_failure[OF g])
  show "\<forall>p \<in> set (store w). delete_fails e (fst p) \<longrightarrow>
         p \<in> set (store (snd (replayRequests q e w))) \<and>
         p \<in> set (store (settleRemovals e (snd (replayRequests q e w))))"
    using failed_delete_keeps_entry[OF g] by blast
next
  assume "delete_fails e k"
  then show "entryResult q e (k, s) \<noteq> Inr True"
    using success_needs_delete[of q e k s] by blast
next
  assume a: "delete_fails e k \<and> snd (willReplay q s) \<noteq> Thrown \<and>
    fetch_ok e k (toRequest (fst (willReplay q s))) \<and>
    snd (didReplay q e k s) \<noteq> Thrown"
  then have h: "snd (willReplay q s) \<noteq> Thrown" "fetch_ok e k (toRequest (fst (willReplay q s)))"
    "snd (didReplay q e k s) \<noteq> Thrown" "delete_fails e k"
    by simp_all
  show "entryEvents q e (k, s) =
        [Callback RequestWillReplay [s], Fetch (toRequest (fst (willReplay q s))),
         Callback RequestDidReplay [fst (atFetched q e k s)], RemoveRequest k,
         Callback ReplayDidFail [fst (atRemoved q e k s)]]"
    by (rule entry_delete_fails(1)[OF h])
  show "entryResult q e (k, s) =
        (if snd (apply_callback (replayDidFail (callbacks q)) (fst (atRemoved q e k s))) = Thrown
         then Inl CallbackError else Inr False)"
    by (simp add: entry_delete_fails(2)[OF h] failResult_def)
  show "fst (entryCell q e (k, s)) =
        fst (apply_callback (replayDidFail (callbacks q)) (fst (atRemoved q e k s)))"
    by (simp add: entry_delete_fails(3)[OF h] failCell_def)
qed

theorem store_failure_propagation_witness:
  "add_fails stuck_env \<and> fromRequest (capture_time stuck_env) post_request = Inr post_snapshot \<and>
   fst (addRequest marking_queue stuck_env post_request shop_world) = Inl StorageFailure \<and>
   store (snd (addRequest marking_queue stuck_env post_request shop_world)) = store shop_world \<and>
   getAll_fails down_env \<and>
   fst (replayRequests marking_queue down_env shop_world) = Inl StorageFailure \<and>
   store (snd (replayRequests marking_queue down_env shop_world)) = store shop_world \<and>
   \<not> getAll_fails stuck_env \<and> delete_fails stuck_env 4 \<and>
   fetch_ok stuck_env 4 (toRequest order_a) \<and>
   fst (replayRequests marking_queue stuck_env shop_world) \<noteq> Inl StorageFailure \<and>
   (4, \<lparr>queueName = ''orders'', storableRequest = toObject order_a\<rparr>)
     \<in> set (store (snd (replayRequests marking_queue stuck_env shop_world))) \<and>
   (4, \<lparr>queueName = ''orders'', storableRequest = toObject order_a\<rparr>)
     \<in> set (store (settleRemovals stuck_env
                     (snd (replayRequests marking_queue stuck_env shop_world)))) \<and>
   entryEvents marking_queue stuck_env (4, order_a) =
     [Callback RequestWillReplay [order_a], Fetch (toRequest order_a),
      Callback RequestDidReplay [order_a], RemoveRequest 4, Callback ReplayDidFail [order_a]] \<and>
   entryResult marking_queue stuck_env (4, order_a) = Inr False \<and>
   fst (entryCell marking_queue stuck_env (4, order_a)) = order_a\<lparr>referrer := Some ''failed''\<rparr>"
proof -
  have c: "fromRequest (capture_time stuck_env) post_request = Inr post_snapshot"
    by (simp add: stuck_facts post_capture)
  have q: "snd (apply_callback (requestWillQueue (callbacks marking_queue)) post_snapshot) \<noteq> Thrown"
    by (simp add: marking_queue_def no_callbacks_def apply_callback_def)
  note st = quiet_stages[OF marking_facts(3,4)]
  have h: "delete_fails stuck_env 4 \<and> snd (willReplay marking_queue order_a) \<noteq> Thrown \<and>
    fetch_ok stuck_env 4 (toRequest (fst (willReplay marking_queue order_a))) \<and>
    snd (didReplay marking_queue stuck_env 4 order_a) \<noteq> Thrown"
    by (simp add: st stuck_facts)
  have m: "apply_callback (replayDidFail (callbacks marking_queue)) order_a =
             (order_a\<lparr>referrer := Some ''failed''\<rparr>, Returned)"
    by (simp add: marking_facts apply_callback_def marking_def)
  note th = store_failure_propagation[of stuck_env post_request post_snapshot marking_queue
              shop_world 4 order_a]
  note td = store_failure_propagation[of down_env post_request post_snapshot marking_queue
              shop_world 4 order_a]
  have 1: "fst (addRequest marking_queue stuck_env post_request shop_world) = Inl StorageFailure"
    "store (snd (addRequest marking_queue stuck_env post_request shop_world)) = store shop_world"
    using th c q stuck_facts(5) by blast+
  have 2: "fst (replayRequests marking_queue down_env shop_world) = Inl StorageFailure"
    "store (snd (replayRequests marking_queue down_env shop_world)) = store shop_world"
    using td down_facts by blast+
  have 3: "fst (replayRequests marking_queue stuck_env shop_world) \<noteq> Inl StorageFailure"
    using th stuck_facts(1) by blast
  have d: "delete_fails stuck_env (fst (4::nat, \<lparr>queueName = ''orders'', storableRequest = toObject order_a\<rparr>))"
    by (simp add: stuck_facts)
  have 4: "(4, \<lparr>queueName = ''orders'', storableRequest = toObject order_a\<rparr>)
     \<in> set (store (snd (replayRequests marking_queue stuck_env shop_world)))"
    "(4, \<lparr>queueName = ''orders'', storableRequest = toObject order_a\<rparr>)
     \<in> set (store (settleRemovals stuck_env
                     (snd (replayRequests marking_queue stuck_env shop_world))))"
    using th stuck_facts(1) shop_members(1) d by blast+
  have 5: "entryEvents marking_queue stuck_env (4, order_a) =
     [Callback RequestWillReplay [order_a], Fetch (toRequest order_a),
      Callback RequestDidReplay [order_a], RemoveRequest 4, Callback ReplayDidFail [order_a]]"
    "entryResult marking_queue stuck_env (4, order_a) = Inr False"
    "fst (entryCell marking_queue stuck_env (4, order_a)) = order_a\<lparr>referrer := Some ''failed''\<rparr>"
    using th[THEN conjunct2, THEN conjunct2, THEN conjunct2, THEN conjunct2, THEN mp, OF h]
    by (simp_all add: st m)
  show ?thesis
    by (simp add: post_capture 1 2 3 4 5 stuck_facts down_facts)
qed

theorem delete_failure_swallowed_counterexample:
  "delete_fails stuck_env 4 \<and> delete_fails stuck_env 6 \<and>
   fst (replayRequests orders_queue stuck_env shop_world) = Inr () \<and>
   pass_events shop_world (snd (replayRequests orders_queue stuck_env shop_world)) =
     [ReplayRequests ''orders'', GetAll,
      Callback RequestWillReplay [order_a], Fetch (toRequest order_a),
      Callback RequestDidReplay [order_a], RemoveRequest 4, Callback ReplayDidFail [order_a],
      Callback RequestWillReplay [order_b], Fetch (toRequest order_b),
      Callback RequestDidReplay [order_b], RemoveRequest 6, Callback ReplayDidFail [order_b],
      RegisterSync (sync_tag orders_queue)]"
proof -
  have live: "liveEntries orders_queue stuck_env (store shop_world) = [(4, order_a), (6, order_b)]"
    "expiredKeys orders_queue stuck_env (store shop_world) = []"
    by (rule shop_live_any; simp add: orders_facts stuck_facts)+
  have cb: "requestWillReplay (callbacks orders_queue) = None"
    "requestDidReplay (callbacks orders_queue) = None"
    "replayDidFail (callbacks orders_queue) = None"
    by (simp_all add: orders_facts no_callbacks_fields)
  note en = stuck_failure[OF cb(1,2)] quiet_fail[OF cb(3)]
  have res: "entryResult orders_queue stuck_env p = Inr False" for p
    by (cases p) (simp add: en)
  have na: "\<forall>p \<in> set [(4, order_a), (6::nat, order_b)]. \<not> isl (entryResult orders_queue stuck_env p)"
    by (simp add: res)
  have pr: "processed orders_queue stuck_env [(4, order_a), (6, order_b)] =
              [(4, order_a), (6, order_b)]"
    by (rule processed_no_abort[OF na])
  have lr: "loopResult orders_queue stuck_env [(4, order_a), (6, order_b)] = Inr ([], False)"
    unfolding loopResult_def
    by (subst replayLoop_no_abort[OF na]) (auto simp add: res)
  have t: "passTail orders_queue stuck_env [(4, order_a), (6, order_b)] =
             [RegisterSync (sync_tag orders_queue)]"
    by (simp add: passTail_def lr)
  have tr: "pass_events shop_world (snd (replayRequests orders_queue stuck_env shop_world)) =
     [ReplayRequests ''orders'', GetAll,
      Callback RequestWillReplay [order_a], Fetch (toRequest order_a),
      Callback RequestDidReplay [order_a], RemoveRequest 4, Callback ReplayDidFail [order_a],
      Callback RequestWillReplay [order_b], Fetch (toRequest order_b),
      Callback RequestDidReplay [order_b], RemoveRequest 6, Callback ReplayDidFail [order_b],
      RegisterSync (sync_tag orders_queue)]"
    using pass_events_eq[OF stuck_facts(1), of shop_world orders_queue, unfolded live pr t]
    by (simp add: en(1) orders_facts)
  have r: "fst (replayRequests orders_queue stuck_env shop_world) = Inr ()"
    by (simp add: replayRequests_result[OF stuck_facts(1)] live lr)
  show ?thesis using tr r by (simp add: stuck_facts)
qed

text \<open>
  C7. Constructing a queue fails with the duplicate-name error exactly when the name is
  in the registry, and succeeds otherwise, putting the name there. No action removes a
  name: after any actions the registry holds what it held before, and, starting from
  the empty registry, it holds exactly the names of the constructions asked for. So a
  construction fails with the duplicate-name error if and only if a construction with
  that name came earlier.
\<close>

theorem queue_name_reserved:
  "(n \<in> set (names w) \<longrightarrow>
      Queue_constructor n mrt cbs e w = (Inl (DuplicateQueueName n), w)) \<and>
   (n \<notin> set (names w) \<longrightarrow>
      (\<exists>q. fst (Queue_constructor n mrt cbs e w) = Inr q \<and> name q = n) \<and>
      n \<in> set (names (snd (Queue_constructor n mrt cbs e w)))) \<and>
   set (names w) \<subseteq> set (names (run acts w)) \<and>
   set (names (run acts initial_world)) = constructed acts \<and>
   (fst (Queue_constructor n mrt cbs e (run acts initial_world)) = Inl (DuplicateQueueName n)
      \<longleftrightarrow> n \<in> constructed acts)"
proof (intro conjI impI)
  show "Queue_constructor n mrt cbs e w = (Inl (DuplicateQueueName n), w)" if "n \<in> set (names w)"
    using that by (rule constructor_duplicate)
  show "\<exists>q. fst (Queue_constructor n mrt cbs e w) = Inr q \<and> name q = n" if "n \<notin> set (names w)"
    using constructor_fresh[OF that] by blast
  show "n \<in> set (names (snd (Queue_constructor n mrt cbs e w)))" if "n \<notin> set (names w)"
    using constructor_fresh[OF that, of mrt cbs e] by auto
  show "set (names w) \<subseteq> set (names (run acts w))"
    by (simp add: run_names)
  show c: "set (names (run acts initial_world)) = constructed acts"
    by (simp add: run_names initial_world_def)
  show "fst (Queue_constructor n mrt cbs e (run acts initial_world)) = Inl (DuplicateQueueName n)
      \<longleftrightarrow> n \<in> constructed acts"
  proof (cases "n \<in> set (names (run acts initial_world))")
    case True
    then show ?thesis using c by (simp add: constructor_duplicate)
  next
    case False
    from constructor_fresh[OF this, of mrt cbs e] show ?thesis using False c by auto
  qed
qed

theorem queue_name_reserved_witness:
  "''orders'' \<notin> set (names initial_world) \<and>
   (\<exists>q. fst (Queue_constructor ''orders'' None None plain_env initial_world) = Inr q \<and>
        name q = ''orders'') \<and>
   ''orders'' \<in> constructed [(plain_env, Construct ''orders'' None None), (plain_env, Sync ''t'')] \<and>
   fst (Queue_constructor ''orders'' None None plain_env
          (run [(plain_env, Construct ''orders'' None None), (plain_env, Sync ''t'')]
             initial_world)) = Inl (DuplicateQueueName ''orders'') \<and>
   ''orders'' \<in> set (names (initial_world\<lparr>names := [''orders'']\<rparr>)) \<and>
   Queue_constructor ''orders'' None None plain_env (initial_world\<lparr>names := [''orders'']\<rparr>)
     = (Inl (DuplicateQueueName ''orders''), initial_world\<lparr>names := [''orders'']\<rparr>)"
proof -
  have a: "''orders'' \<notin> set (names initial_world)"
    by (simp add: initial_world_def)
  have b: "''orders'' \<in> constructed [(plain_env, Construct ''orders'' None None), (plain_env, Sync ''t'')]"
    by simp
  have c: "''orders'' \<in> set (names (initial_world\<lparr>names := [''orders'']\<rparr>))"
    by simp
  from queue_name_reserved[of "''orders''" initial_world None None plain_env
         "[(plain_env, Construct ''orders'' None None), (plain_env, Sync ''t'')]"]
       queue_name_reserved[of "''orders''" "initial_world\<lparr>names := [''orders'']\<rparr>" None None
         plain_env "[]"]
       a b c
  show ?thesis by blast
qed

text \<open>
  C8. Writing a snapshot to its persisted record and reading it back gives the same
  snapshot, field by field, body bytes included. A request with a body-bearing method
  that is captured, persisted, read back and rebuilt has the method, URL, header pairs
  and body bytes of the original. A persisted record with method GET is rebuilt without
  a body, whatever body the record holds. The conversions are those of the
  specification, the class \<^verbatim>\<open>StorableRequest\<close> not being among the sources.
\<close>

theorem storable_roundtrip:
  "fromObject (toObject s) = s \<and>
   (permitsBody (req_method r) \<and> fromRequest now r = Inr s' \<longrightarrow>
      req_method (toRequest (fromObject (toObject s'))) = req_method r \<and>
      req_url (toRequest (fromObject (toObject s'))) = req_url r \<and>
      req_headers (toRequest (fromObject (toObject s'))) = req_headers r \<and>
      req_body (toRequest (fromObject (toObject s'))) = req_body r \<and>
      timestamp (fromObject (toObject s')) = now) \<and>
   (obj_method obj = ''GET'' \<longrightarrow> req_body (toRequest (fromObject obj)) = None)"
  by (auto simp add: fromObject_def toObject_def toRequest_def fromRequest_def permitsBody_def
        split: if_splits)

theorem storable_roundtrip_witness:
  "permitsBody (req_method post_request) \<and>
   fromRequest 5 post_request = Inr post_snapshot \<and>
   req_method (toRequest (fromObject (toObject post_snapshot))) = ''POST'' \<and>
   req_url (toRequest (fromObject (toObject post_snapshot))) = ''/buy'' \<and>
   req_headers (toRequest (fromObject (toObject post_snapshot))) = [(''X-Id'', ''7'')] \<and>
   req_body (toRequest (fromObject (toObject post_snapshot))) = Some [1, 2] \<and>
   obj_method get_object = ''GET'' \<and> obj_body get_object = Some [9] \<and>
   req_body (toRequest (fromObject get_object)) = None"
proof -
  have h: "permitsBody (req_method post_request) \<and> fromRequest 5 post_request = Inr post_snapshot"
    by (simp add: permitsBody_def fromRequest_def post_request_def post_snapshot_def)
  have g: "obj_method get_object = ''GET''" "obj_body get_object = Some [9]"
    by (simp_all add: get_object_def)
  have r: "req_method post_request = ''POST''" "req_url post_request = ''/buy''"
    "req_headers post_request = [(''X-Id'', ''7'')]" "req_body post_request = Some [1, 2]"
    by (simp_all add: post_request_def)
  from storable_roundtrip[of post_snapshot post_request 5 post_snapshot get_object, THEN conjunct2]
    h g r
  show ?thesis by simp
qed

text \<open>
  C9. Take a non-expired entry for which \<open>requestWillReplay\<close> comes back, the fetch
  succeeds and \<open>requestDidReplay\<close> throws. Its \<^verbatim>\<open>_replayRequest\<close> then calls
  \<open>replayDidFail\<close> with the same snapshot object, as \<open>requestDidReplay\<close> left it (with
  what a suspended \<open>requestWillReplay\<close> did to it during the fetch), and does not call
  \<^verbatim>\<open>_removeRequest\<close>. The object left is what \<open>replayDidFail\<close> made of it, and the
  entry does not count as replayed: \<^verbatim>\<open>_replayRequest\<close> resolves to false, or rejects
  when \<open>replayDidFail\<close> itself throws. After the pass the entry is still in the store
  and \<open>allRequestsDidReplay\<close> has not been called; where no \<^verbatim>\<open>_replayRequest\<close> of the
  pass rejects, a new sync registration is asked for.
\<close>

theorem didReplay_throw_is_a_failure:
  assumes "store_ok w" and "\<not> getAll_fails e"
    and "(k, ent) \<in> set (store w)" and "queueName ent = name q"
    and "\<not> date_now e k - timestamp (fromObject (storableRequest ent)) > maxRetentionTime q"
    and "sr = fromObject (storableRequest ent)"
    and "snd (willReplay q sr) \<noteq> Thrown"
    and "fetch_ok e k (toRequest (fst (willReplay q sr)))"
    and "snd (didReplay q e k sr) = Thrown"
  shows "entryEvents q e (k, sr) =
           [Callback RequestWillReplay [sr], Fetch (toRequest (fst (willReplay q sr))),
            Callback RequestDidReplay [fst (atFetched q e k sr)],
            Callback ReplayDidFail [fst (didReplay q e k sr)]] \<and>
         entryResult q e (k, sr) =
           (if snd (apply_callback (replayDidFail (callbacks q)) (fst (didReplay q e k sr)))
               = Thrown
            then Inl CallbackError else Inr False) \<and>
         fst (entryCell q e (k, sr)) =
           fst (apply_callback (replayDidFail (callbacks q)) (fst (didReplay q e k sr))) \<and>
         (k, ent) \<in> set (store (snd (replayRequests q e w))) \<and>
         hook_calls AllRequestsDidReplay (pass_events w (snd (replayRequests q e w))) = [] \<and>
         ((\<forall>p \<in> set (liveEntries q e (store w)). \<not> isl (entryResult q e p)) \<longrightarrow>
            registrations (pass_events w (snd (replayRequests q e w))) = [sync_tag q])"
proof -
  note ev = entry_didReplay_throws[OF assms(7,8,9)]
  have 1: "entryResult q e (k, sr) =
           (if snd (apply_callback (replayDidFail (callbacks q)) (fst (didReplay q e k sr)))
               = Thrown
            then Inl CallbackError else Inr False)"
    by (simp add: ev(2) failResult_def)
  have 2: "entryResult q e (k, sr) \<noteq> Inr True"
    by (simp add: 1)
  have 3: "fst (entryCell q e (k, sr)) =
           fst (apply_callback (replayDidFail (callbacks q)) (fst (didReplay q e k sr)))"
    by (simp add: ev(3) failCell_def)
  have l: "(k, sr) \<in> set (liveEntries q e (store w))"
    unfolding assms(6) by (rule live_member[OF assms(3,4,5)])
  have 4: "(k, ent) \<in> set (store (snd (replayRequests q e w)))"
    using failed_entry_stays[OF assms(1,2,3)] 2 assms(6) by simp
  have 5: "hook_calls AllRequestsDidReplay (pass_events w (snd (replayRequests q e w))) = []"
    by (simp add: pass_hook_calls_all[OF assms(2)] passTail_not_all[OF l 2])
  have 6: "registrations (pass_events w (snd (replayRequests q e w))) = [sync_tag q]"
    if "\<forall>p \<in> set (liveEntries q e (store w)). \<not> isl (entryResult q e p)"
    by (rule failed_pass_registers[OF assms(2) l 2 that])
  show ?thesis using ev(1) 1 3 4 5 6 by blast
qed

theorem didReplay_throw_is_a_failure_witness:
  "store_ok shop_world \<and> \<not> getAll_fails eager_env \<and>
   (4, \<lparr>queueName = ''orders'', storableRequest = toObject order_a\<rparr>) \<in> set (store shop_world) \<and>
   willReplay careless_queue order_a = (order_a, Suspended (\<lambda>s. s\<lparr>url := ''/v2''\<rparr>)) \<and>
   fetch_ok eager_env 4 (toRequest order_a) \<and>
   didReplay careless_queue eager_env 4 order_a = (order_a\<lparr>url := ''/v2''\<rparr>, Thrown) \<and>
   entryEvents careless_queue eager_env (4, order_a) =
     [Callback RequestWillReplay [order_a], Fetch (toRequest order_a),
      Callback RequestDidReplay [order_a\<lparr>url := ''/v2''\<rparr>],
      Callback ReplayDidFail [order_a\<lparr>url := ''/v2''\<rparr>]] \<and>
   entryResult careless_queue eager_env (4, order_a) = Inr False \<and>
   fst (entryCell careless_queue eager_env (4, order_a)) =
     order_a\<lparr>url := ''/v2'', referrer := Some ''failed''\<rparr> \<and>
   (4, \<lparr>queueName = ''orders'', storableRequest = toObject order_a\<rparr>)
     \<in> set (store (snd (replayRequests careless_queue eager_env shop_world))) \<and>
   hook_calls AllRequestsDidReplay
     (pass_events shop_world (snd (replayRequests careless_queue eager_env shop_world))) = [] \<and>
   registrations
     (pass_events shop_world (snd (replayRequests careless_queue eager_env shop_world))) =
     [sync_tag careless_queue] \<and>
   didReplay hopeless_queue plain_env 4 order_a = (order_a, Thrown) \<and>
   entryEvents hopeless_queue plain_env (4, order_a) =
     [Callback RequestWillReplay [order_a], Fetch (toRequest order_a),
      Callback RequestDidReplay [order_a], Callback ReplayDidFail [order_a]] \<and>
   entryResult hopeless_queue plain_env (4, order_a) = Inl CallbackError \<and>
   (4, \<lparr>queueName = ''orders'', storableRequest = toObject order_a\<rparr>)
     \<in> set (store (snd (replayRequests hopeless_queue plain_env shop_world))) \<and>
   hook_calls AllRequestsDidReplay
     (pass_events shop_world (snd (replayRequests hopeless_queue plain_env shop_world))) = []"
proof -
  have a: "queueName \<lparr>queueName = ''orders'', storableRequest = toObject order_a\<rparr> = name careless_queue"
    "queueName \<lparr>queueName = ''orders'', storableRequest = toObject order_a\<rparr> = name hopeless_queue"
    by (simp_all add: careless_facts hopeless_facts)
  have b: "\<not> date_now eager_env 4 - timestamp (fromObject (storableRequest
             \<lparr>queueName = ''orders'', storableRequest = toObject order_a\<rparr>))
             > maxRetentionTime careless_queue"
    "\<not> date_now plain_env 4 - timestamp (fromObject (storableRequest
             \<lparr>queueName = ''orders'', storableRequest = toObject order_a\<rparr>))
             > maxRetentionTime hopeless_queue"
    by (simp_all add: eager_facts plain_facts careless_facts hopeless_facts fromObject_toObject
          order_times MAX_RETENTION_TIME_def)
  have c: "order_a = fromObject (storableRequest
             \<lparr>queueName = ''orders'', storableRequest = toObject order_a\<rparr>)"
    by (simp add: fromObject_toObject)
  have d: "snd (willReplay careless_queue order_a) \<noteq> Thrown"
    "fetch_ok eager_env 4 (toRequest (fst (willReplay careless_queue order_a)))"
    "snd (didReplay careless_queue eager_env 4 order_a) = Thrown"
    by (simp_all add: careless_eager eager_facts)
  have h: "snd (willReplay hopeless_queue order_a) \<noteq> Thrown"
    "fetch_ok plain_env 4 (toRequest (fst (willReplay hopeless_queue order_a)))"
    "snd (didReplay hopeless_queue plain_env 4 order_a) = Thrown"
    by (simp_all add: hopeless_plain plain_facts)
  have live: "liveEntries careless_queue eager_env (store shop_world) = [(4, order_a), (6, order_b)]"
    by (rule shop_live_any; simp add: careless_facts eager_facts)
  have res: "entryResult careless_queue eager_env (k, sr) = Inr False" for k sr
  proof -
    have "snd (willReplay careless_queue sr) \<noteq> Thrown"
      "fetch_ok eager_env k (toRequest (fst (willReplay careless_queue sr)))"
      "snd (didReplay careless_queue eager_env k sr) = Thrown"
      by (simp_all add: careless_eager eager_facts)
    from entry_didReplay_throws(2)[OF this] show ?thesis
      by (simp add: failResult_def careless_eager)
  qed
  have na: "\<forall>p \<in> set (liveEntries careless_queue eager_env (store shop_world)).
              \<not> isl (entryResult careless_queue eager_env p)"
    by (simp add: live res)
  note tc = didReplay_throw_is_a_failure[OF shop_store_ok eager_facts(1) shop_members(1) a(1)
              b(1) c d]
  note th = didReplay_throw_is_a_failure[OF shop_store_ok plain_facts(1) shop_members(1) a(2)
              b(2) c h]
  have 1: "entryEvents careless_queue eager_env (4, order_a) =
     [Callback RequestWillReplay [order_a], Fetch (toRequest order_a),
      Callback RequestDidReplay [order_a\<lparr>url := ''/v2''\<rparr>],
      Callback ReplayDidFail [order_a\<lparr>url := ''/v2''\<rparr>]]"
    using tc[THEN conjunct1] by (simp add: careless_eager)
  have 2: "entryResult careless_queue eager_env (4, order_a) = Inr False"
    using tc[THEN conjunct2, THEN conjunct1] by (simp add: careless_eager)
  have 3: "fst (entryCell careless_queue eager_env (4, order_a)) =
     order_a\<lparr>url := ''/v2'', referrer := Some ''failed''\<rparr>"
    using tc[THEN conjunct2, THEN conjunct2, THEN conjunct1] by (simp add: careless_eager)
  have 4: "(4, \<lparr>queueName = ''orders'', storableRequest = toObject order_a\<rparr>)
     \<in> set (store (snd (replayRequests careless_queue eager_env shop_world)))"
    "hook_calls AllRequestsDidReplay
     (pass_events shop_world (snd (replayRequests careless_queue eager_env shop_world))) = []"
    "registrations
     (pass_events shop_world (snd (replayRequests careless_queue eager_env shop_world))) =
     [sync_tag careless_queue]"
    using tc na by blast+
  have 5: "entryEvents hopeless_queue plain_env (4, order_a) =
     [Callback RequestWillReplay [order_a], Fetch (toRequest order_a),
      Callback RequestDidReplay [order_a], Callback ReplayDidFail [order_a]]"
    using th[THEN conjunct1]
    by (simp add: hopeless_plain atFetched_def promised_def resume_nothing)
  have 6: "entryResult hopeless_queue plain_env (4, order_a) = Inl CallbackError"
    using th[THEN conjunct2, THEN conjunct1] by (simp add: hopeless_plain)
  have 7: "(4, \<lparr>queueName = ''orders'', storableRequest = toObject order_a\<rparr>)
     \<in> set (store (snd (replayRequests hopeless_queue plain_env shop_world)))"
    "hook_calls AllRequestsDidReplay
     (pass_events shop_world (snd (replayRequests hopeless_queue plain_env shop_world))) = []"
    using th by blast+
  show ?thesis
    by (simp add: shop_store_ok eager_facts(1,3) shop_members(1) careless_eager hopeless_plain
          1 2 3 4 5 6 7)
qed

text \<open>
  C10. The listener a queue adds at construction calls \<^verbatim>\<open>replayRequests\<close> without
  reading the tag of the event. Delivering a sync event therefore does the same whatever
  its tag, and enters \<^verbatim>\<open>replayRequests\<close> once for every queue that listens, in the order
  of construction. A successful construction adds exactly one listener, for the new
  queue, and no action removes a listener: a wake-up registered under the tag of one
  queue starts a pass on every queue constructed so far.
\<close>

theorem sync_event_replays_every_queue:
  "dispatchSync t e w = dispatchSync t' e w \<and>
   passes (pass_events w (dispatchSync t e w)) = map name (listeners w) \<and>
   (fst (Queue_constructor n mrt cbs e' w) = Inr q \<longrightarrow>
      listeners (snd (Queue_constructor n mrt cbs e' w)) = listeners w @ [q]) \<and>
   set (listeners w) \<subseteq> set (listeners (run acts w))"
proof (intro conjI impI)
  show "dispatchSync t e w = dispatchSync t' e w"
    by (simp add: dispatchSync_def)
  show "passes (pass_events w (dispatchSync t e w)) = map name (listeners w)"
    using fold_replay_passes[of e "listeners w" w]
    by (auto simp add: dispatchSync_def pass_events_def)
  show "listeners (snd (Queue_constructor n mrt cbs e' w)) = listeners w @ [q]"
    if "fst (Queue_constructor n mrt cbs e' w) = Inr q"
  proof (cases "n \<in> set (names w)")
    case True
    with that show ?thesis by (simp add: constructor_duplicate)
  next
    case False
    from constructor_fresh[OF this, of mrt cbs e'] that show ?thesis by auto
  qed
  show "set (listeners w) \<subseteq> set (listeners (run acts w))"
    using run_listeners[of acts w] by auto
qed

theorem sync_event_replays_every_queue_witness:
  "fst (Queue_constructor ''orders'' None None plain_env initial_world) = Inr orders_queue \<and>
   listeners (snd (Queue_constructor ''orders'' None None plain_env initial_world)) = [orders_queue] \<and>
   passes (pass_events shop_world (dispatchSync (sync_tag payments_queue) plain_env shop_world))
     = [''orders'', ''payments'']"
proof -
  have c: "fst (Queue_constructor ''orders'' None None plain_env initial_world) = Inr orders_queue"
    by (simp add: Queue_constructor_def initial_world_def orders_queue_def Let_def)
  have l: "map name (listeners shop_world) = [''orders'', ''payments'']"
    by (simp add: shop_world_def orders_queue_def payments_queue_def)
  have i: "listeners initial_world = []" by (simp add: initial_world_def)
  from sync_event_replays_every_queue[of "sync_tag payments_queue" plain_env shop_world
         "sync_tag payments_queue" "''orders''" None None plain_env orders_queue "[]"]
       sync_event_replays_every_queue[of "sync_tag payments_queue" plain_env initial_world
         "sync_tag payments_queue" "''orders''" None None plain_env orders_queue "[]"]
       c l i
  show ?thesis by simp
qed

end
